theory Spec2Isabelle
  imports Main "HOL-Library.Word"
begin

unbundle bit_operations_syntax

section \<open>Data model of the Intel HEX parser (parser.go)\<close>

type_synonym byte = "8 word"
type_synonym uint16 = "16 word"
type_synonym uint32 = "32 word"

text \<open>
  A Go byte slice that points into the parser's \<open>field\<close> array is kept as the pair of
  its start index and its length; the bytes it shows are read through the array at the
  moment they are looked at (\<open>deref\<close>), so that a later write to \<open>field\<close> is seen
  through every slice that covers it. The nil slice has length 0.
\<close>

type_synonym slice = "nat \<times> nat"

definition nil :: slice where
  "nil = (0, 0)"

definition len :: "slice \<Rightarrow> nat" where
  "len s = snd s"

record Record =
  Address :: uint32
  Bytes :: slice

datatype error =
    ParseError (Line: int) (Msg: string)
  | InvalidByteError char
  | ErrLength
  | ReadError string

text \<open>Run-time panics of Go: a slice expression or an index out of range.\<close>

datatype fault = SliceBounds | IndexRange

text \<open>
  What \<open>bufio.Scanner\<close> hands out: the line (without its terminator) and, behind it,
  the bytes of the scanner's buffer up to the capacity of the returned slice. Go lets a
  slice expression \<open>s[:k]\<close> reach up to the capacity, so these bytes are readable
  through \<open>p.b[:n*2]\<close>.
\<close>

record token =
  tline :: string
  tslack :: string

record Scanner =
  pending :: "token list"
  cur :: token
  final :: "string option"

definition Scan :: "Scanner \<Rightarrow> bool \<times> Scanner" where
  "Scan s = (case pending s of
               [] \<Rightarrow> (False, s)
             | t # ts \<Rightarrow> (True, s\<lparr>pending := ts, cur := t\<rparr>))"

definition Scanner_Err :: "Scanner \<Rightarrow> error option" where
  "Scanner_Err s = map_option ReadError (final s)"

record Parser =
  scanner :: Scanner
  field :: "byte list"
  err :: "error option"
  lba :: uint32
  useLBA :: bool
  sba :: uint32
  useSBA :: bool
  cs :: uint16
  ip :: uint16
  hasCSIP :: bool
  eip :: uint32
  hasEIP :: bool
  data :: Record
  wrap :: "Record option"
  b :: string
  bcap :: string
  line :: int
  sum' :: byte
  ended :: bool

definition NewScanner :: "token list \<Rightarrow> string option \<Rightarrow> Scanner" where
  "NewScanner ts e = \<lparr>pending = ts, cur = \<lparr>tline = [], tslack = []\<rparr>, final = e\<rparr>"

definition NewParser :: "token list \<Rightarrow> string option \<Rightarrow> Parser" where
  "NewParser ts e =
     \<lparr>scanner = NewScanner ts e, field = replicate 256 0, err = None,
      lba = 0, useLBA = False, sba = 0, useSBA = False,
      cs = 0, ip = 0, hasCSIP = False, eip = 0, hasEIP = False,
      data = \<lparr>Address = 0, Bytes = nil\<rparr>, wrap = None,
      b = [], bcap = [], line = 0, sum' = 0, ended = False\<rparr>"

definition deref :: "Parser \<Rightarrow> slice \<Rightarrow> byte list" where
  "deref p s = take (snd s) (drop (fst s) (field p))"

section \<open>encoding/hex\<close>

definition fromHexChar :: "char \<Rightarrow> byte option" where
  "fromHexChar c =
     (let n = (of_char c :: nat) in
      if 48 \<le> n \<and> n \<le> 57 then Some (of_nat (n - 48))
      else if 97 \<le> n \<and> n \<le> 102 then Some (of_nat (n - 87))
      else if 65 \<le> n \<and> n \<le> 70 then Some (of_nat (n - 55))
      else None)"

text \<open>
  \<open>hex.Decode\<close> of the Go library: the bytes decoded before the first error, and the
  error. An invalid character is reported before an odd length.
\<close>

fun Decode :: "string \<Rightarrow> byte list \<times> error option" where
  "Decode (p # q # rest) =
     (case fromHexChar p of
        None \<Rightarrow> ([], Some (InvalidByteError p))
      | Some hi \<Rightarrow>
          (case fromHexChar q of
             None \<Rightarrow> ([], Some (InvalidByteError q))
           | Some lo \<Rightarrow>
               (case Decode rest of (ds, e) \<Rightarrow> ((push_bit 4 hi OR lo) # ds, e))))"
| "Decode [p] =
     (case fromHexChar p of
        None \<Rightarrow> ([], Some (InvalidByteError p))
      | Some hi \<Rightarrow> ([], Some ErrLength))"
| "Decode [] = ([], None)"

section \<open>The parser\<close>

definition makeError :: "Parser \<Rightarrow> string \<Rightarrow> error" where
  "makeError p msg = ParseError (line p) msg"

text \<open>
  \<open>readFieldInto n field\<close>: the destination is \<open>p.field[foff:]\<close> (\<open>foff\<close> is 0 for
  \<open>readField\<close> and 255 for the checksum). \<open>n*2\<close> is a product of bytes and wraps
  modulo 256.
\<close>

definition readFieldInto :: "byte \<Rightarrow> nat \<Rightarrow> Parser \<Rightarrow> fault + (slice \<times> Parser)" where
  "readFieldInto n foff p =
     (if err p \<noteq> None then Inr (nil, p)
      else
        let k = unat (n * 2) in
        if k > length (b p) + length (bcap p) then Inl SliceBounds
        else
          (case Decode (take k (b p @ bcap p)) of (ds, e) \<Rightarrow>
             let nd = length ds in
             if foff + nd > length (field p) then Inl IndexRange
             else
               let p1 = p\<lparr>field := take foff (field p) @ ds @ drop (foff + nd) (field p),
                          err := e\<rparr> in
               if nd * 2 > length (b p1) then Inl SliceBounds
               else
                 let p2 = p1\<lparr>b := drop (nd * 2) (b p1)\<rparr> in
                 if (of_nat nd :: byte) < n
                 then Inr (nil, p2\<lparr>err := Some (makeError p2 ''record too short'')\<rparr>)
                 else if err p2 \<noteq> None then Inr (nil, p2)
                 else Inr ((foff, nd), p2\<lparr>sum' := sum' p2 + sum_list ds\<rparr>)))"

definition readField :: "byte \<Rightarrow> Parser \<Rightarrow> fault + (slice \<times> Parser)" where
  "readField n p = readFieldInto n 0 p"

definition readByteField :: "Parser \<Rightarrow> fault + (byte \<times> Parser)" where
  "readByteField p =
     (case readField 1 p of
        Inl f \<Rightarrow> Inl f
      | Inr (bytes, p1) \<Rightarrow>
          if err p1 \<noteq> None then Inr (0, p1)
          else Inr (deref p1 bytes ! 0, p1))"

definition readWordField :: "Parser \<Rightarrow> fault + (uint16 \<times> Parser)" where
  "readWordField p =
     (case readField 2 p of
        Inl f \<Rightarrow> Inl f
      | Inr (bytes, p1) \<Rightarrow>
          if err p1 \<noteq> None then Inr (0, p1)
          else Inr (push_bit 8 (ucast (deref p1 bytes ! 0)) OR ucast (deref p1 bytes ! 1), p1))"

definition reclens :: "byte list" where
  "reclens = [0, 0, 2, 4, 2, 4]"

definition checkRecLen :: "byte \<Rightarrow> byte \<Rightarrow> Parser \<Rightarrow> fault + Parser" where
  "checkRecLen rectyp reclen p =
     (if err p \<noteq> None then Inr p
      else if 0 < rectyp then
        (if unat rectyp \<ge> length reclens then Inl IndexRange
         else if reclen \<noteq> reclens ! unat rectyp
         then Inr (p\<lparr>err := Some (makeError p ''invalid record length'')\<rparr>)
         else Inr p)
      else Inr p)"

definition scanLine :: "Parser \<Rightarrow> bool \<times> Parser" where
  "scanLine p =
     (case Scan (scanner p) of
        (False, s) \<Rightarrow>
          let p1 = p\<lparr>scanner := s, err := Scanner_Err s\<rparr> in
          if err p1 = None then
            (if \<not> ended p1 then (False, p1\<lparr>err := Some (makeError p1 ''missing end record'')\<rparr>)
             else (False, p1))
          else (False, p1)
      | (True, s) \<Rightarrow>
          let p1 = p\<lparr>scanner := s\<rparr> in
          if ended p1 then (False, p1\<lparr>err := Some (makeError p1 ''record after end'')\<rparr>)
          else (True, p1\<lparr>line := line p1 + 1\<rparr>))"

definition endRecord :: "Parser \<Rightarrow> fault + Parser" where
  "endRecord p =
     (case readFieldInto 1 255 p of
        Inl f \<Rightarrow> Inl f
      | Inr (bytes, p1) \<Rightarrow>
          if err p1 \<noteq> None then Inr p1
          else if sum' p1 \<noteq> 0 then Inr (p1\<lparr>err := Some (makeError p1 ''invalid checksum'')\<rparr>)
          else if length (b p1) > 0 then Inr (p1\<lparr>err := Some (makeError p1 ''trailing data'')\<rparr>)
          else Inr p1)"

definition parseData :: "byte \<Rightarrow> uint16 \<Rightarrow> Parser \<Rightarrow> fault + Parser" where
  "parseData reclen offset p =
     (case readField reclen p of
        Inl f \<Rightarrow> Inl f
      | Inr (bytes, p1) \<Rightarrow>
          let p2 = p1\<lparr>data := (data p1)\<lparr>Bytes := bytes\<rparr>\<rparr>;
              p3 = (if useSBA p2 then p2\<lparr>data := (data p2)\<lparr>Address := sba p2 + ucast offset\<rparr>\<rparr>
                    else if useLBA p2 then p2\<lparr>data := (data p2)\<lparr>Address := lba p2 OR ucast offset\<rparr>\<rparr>
                    else p2\<lparr>data := (data p2)\<lparr>Address := ucast offset\<rparr>\<rparr>)
          in
          if \<not> useLBA p3 then
            let next = int (unat offset) + int (len (Bytes (data p3)));
                extra = (next - 1) - 0xffff
            in
            if extra > 0 then
              (if nat extra > len (Bytes (data p3)) then Inl SliceBounds
               else
                 let w = \<lparr>Address = sba p3 + ((of_int (next - 1) :: uint32) AND 0xffff),
                          Bytes = (fst (Bytes (data p3)) + nat extra,
                                   len (Bytes (data p3)) - nat extra)\<rparr>
                 in Inr (p3\<lparr>wrap := Some w,
                            data := (data p3)\<lparr>Bytes := (fst (Bytes (data p3)), nat extra)\<rparr>\<rparr>))
            else Inr p3
          else Inr p3)"

definition parseInfo :: "byte \<Rightarrow> byte \<Rightarrow> uint16 \<Rightarrow> Parser \<Rightarrow> fault + (bool \<times> Parser)" where
  "parseInfo rectyp reclen offset p =
     (if err p \<noteq> None then Inr (True, p)
      else if rectyp = 0 then
        (case parseData reclen offset p of
           Inl f \<Rightarrow> Inl f
         | Inr p1 \<Rightarrow>
             (case endRecord p1 of Inl f \<Rightarrow> Inl f | Inr p2 \<Rightarrow> Inr (True, p2)))
      else if rectyp = 1 then
        (case endRecord (p\<lparr>ended := True\<rparr>) of Inl f \<Rightarrow> Inl f | Inr p2 \<Rightarrow> Inr (False, p2))
      else if rectyp = 2 then
        (case readWordField p of
           Inl f \<Rightarrow> Inl f
         | Inr (w, p1) \<Rightarrow>
             (case endRecord (p1\<lparr>sba := push_bit 4 (ucast w), useSBA := True,
                                 lba := 0, useLBA := False\<rparr>) of
                Inl f \<Rightarrow> Inl f | Inr p2 \<Rightarrow> Inr (False, p2)))
      else if rectyp = 3 then
        (case readWordField p of
           Inl f \<Rightarrow> Inl f
         | Inr (w1, p1) \<Rightarrow>
             (case readWordField (p1\<lparr>cs := w1\<rparr>) of
                Inl f \<Rightarrow> Inl f
              | Inr (w2, p2) \<Rightarrow>
                  (case endRecord (p2\<lparr>ip := w2, hasCSIP := True\<rparr>) of
                     Inl f \<Rightarrow> Inl f | Inr p3 \<Rightarrow> Inr (False, p3))))
      else if rectyp = 4 then
        (case readWordField (p\<lparr>sba := 0, useSBA := False\<rparr>) of
           Inl f \<Rightarrow> Inl f
         | Inr (w, p1) \<Rightarrow>
             (case endRecord (p1\<lparr>lba := push_bit 16 (ucast w), useLBA := True\<rparr>) of
                Inl f \<Rightarrow> Inl f | Inr p2 \<Rightarrow> Inr (False, p2)))
      else if rectyp = 5 then
        (case readWordField p of
           Inl f \<Rightarrow> Inl f
         | Inr (w1, p1) \<Rightarrow>
             (case readWordField (p1\<lparr>eip := push_bit 16 (ucast w1)\<rparr>) of
                Inl f \<Rightarrow> Inl f
              | Inr (w2, p2) \<Rightarrow>
                  (case endRecord (p2\<lparr>eip := eip p2 OR ucast w2, hasEIP := True\<rparr>) of
                     Inl f \<Rightarrow> Inl f | Inr p3 \<Rightarrow> Inr (False, p3))))
      else
        (case endRecord p of Inl f \<Rightarrow> Inl f | Inr p2 \<Rightarrow> Inr (False, p2)))"

text \<open>
  \<open>Parse\<close> is a loop: \<open>NextRec\<close> is one pass through its body, from the label
  \<open>NextRec\<close> to a \<open>return r\<close> (the result \<open>Some r\<close>) or to a \<open>goto NextRec\<close> (the
  result \<open>None\<close>), and \<open>Parse\<close> repeats it until it returns. Every pass that ends in
  \<open>goto NextRec\<close> has taken a line from the scanner.
\<close>

definition NextRec :: "Parser \<Rightarrow> fault + (bool option \<times> Parser)" where
  "NextRec p =
     (if err p \<noteq> None then Inr (Some False, p)
      else
        (case wrap p of
           Some w \<Rightarrow> Inr (Some True, p\<lparr>data := w, wrap := None\<rparr>)
         | None \<Rightarrow>
             (case scanLine p of
                (False, p1) \<Rightarrow> Inr (Some False, p1)
              | (True, p1) \<Rightarrow>
                  let t = cur (scanner p1) in
                  if length (tline t) = 0 then Inr (None, p1)
                  else if hd (tline t) \<noteq> CHR '':''
                  then Inr (Some False,
                            p1\<lparr>err := Some (makeError p1 ''missing record mark'')\<rparr>)
                  else
                    (case readByteField (p1\<lparr>b := tl (tline t), bcap := tslack t, sum' := 0\<rparr>) of
                       Inl f \<Rightarrow> Inl f
                     | Inr (reclen, p2) \<Rightarrow>
                    (case readWordField p2 of
                       Inl f \<Rightarrow> Inl f
                     | Inr (offset, p3) \<Rightarrow>
                    (case readByteField p3 of
                       Inl f \<Rightarrow> Inl f
                     | Inr (rectyp, p4) \<Rightarrow>
                    (case checkRecLen rectyp reclen p4 of
                       Inl f \<Rightarrow> Inl f
                     | Inr p5 \<Rightarrow>
                    (case parseInfo rectyp reclen offset p5 of
                       Inl f \<Rightarrow> Inl f
                     | Inr (gotData, p6) \<Rightarrow>
                         if \<not> gotData then Inr (None, p6)
                         else Inr (Some (err p6 = None), p6)))))))))"

function Parse :: "Parser \<Rightarrow> fault + (bool \<times> Parser)" where
  "Parse p =
     (case NextRec p of
        Inl f \<Rightarrow> Inl f
      | Inr (Some r, p1) \<Rightarrow> Inr (r, p1)
      | Inr (None, p1) \<Rightarrow> Parse p1)"
  by pat_completeness auto

definition Data :: "Parser \<Rightarrow> Record" where
  "Data p = data p"

definition Err :: "Parser \<Rightarrow> error option" where
  "Err p = err p"

definition CSIP :: "Parser \<Rightarrow> uint16 \<times> uint16 \<times> bool" where
  "CSIP p = (cs p, ip p, hasCSIP p)"

definition EIP :: "Parser \<Rightarrow> uint32 \<times> bool" where
  "EIP p = (eip p, hasEIP p)"

section \<open>Callers and states used in the statements\<close>

text \<open>\<open>pulls n\<close>: \<open>n\<close> calls of \<open>Parse\<close> in a row, as a caller's loop makes them.\<close>

fun pulls :: "nat \<Rightarrow> Parser \<Rightarrow> fault + (bool list \<times> Parser)" where
  "pulls 0 p = Inr ([], p)"
| "pulls (Suc n) p =
     (case Parse p of
        Inl f \<Rightarrow> Inl f
      | Inr (r, p1) \<Rightarrow>
          (case pulls n p1 of Inl f \<Rightarrow> Inl f | Inr (rs, p2) \<Rightarrow> Inr (r # rs, p2)))"

text \<open>
  A line as the scanner returns it from a buffer in which the line terminator and an
  unused byte follow it.
\<close>

definition tok :: "string \<Rightarrow> token" where
  "tok l = \<lparr>tline = l, tslack = [CHR 0x0A, CHR 0x00]\<rparr>"

text \<open>
  \<open>header p t ts rl oh ol ty\<close> is the parser \<open>p\<close> after it has scanned the line
  \<open>t\<close> and read the four header bytes \<open>rl\<close> (length), \<open>oh\<close>, \<open>ol\<close> (offset) and
  \<open>ty\<close> (type); \<open>finish q ck tr\<close> is \<open>q\<close> after \<open>endRecord\<close> has read the checksum
  byte \<open>ck\<close>, with \<open>tr\<close> the bytes left on the line.
\<close>

definition header :: "Parser \<Rightarrow> token \<Rightarrow> token list \<Rightarrow> byte \<Rightarrow> byte \<Rightarrow> byte \<Rightarrow> byte \<Rightarrow> Parser" where
  "header p t ts rl oh ol ty =
     p\<lparr>scanner := (scanner p)\<lparr>pending := ts, cur := t\<rparr>,
       field := ty # ol # drop 2 (field p), err := None,
       b := drop 9 (tline t), bcap := tslack t,
       line := line p + 1, sum' := rl + oh + ol + ty\<rparr>"

definition finish :: "Parser \<Rightarrow> byte \<Rightarrow> byte list \<Rightarrow> Parser" where
  "finish q ck tr =
     q\<lparr>field := take 255 (field q) @ [ck],
       err := (if sum' q + ck \<noteq> 0 then Some (ParseError (line q) ''invalid checksum'')
               else if tr \<noteq> [] then Some (ParseError (line q) ''trailing data'')
               else None),
       b := drop 2 (b q), sum' := sum' q + ck\<rparr>"

abbreviation (input) word16 :: "byte \<Rightarrow> byte \<Rightarrow> uint16" where
  "word16 x y \<equiv> push_bit 8 (ucast x) OR ucast y"

definition address :: "Parser \<Rightarrow> uint16 \<Rightarrow> uint32" where
  "address q off =
     (if useSBA q then sba q + ucast off
      else if useLBA q then lba q OR ucast off
      else ucast off)"

definition withData :: "Parser \<Rightarrow> byte \<Rightarrow> uint16 \<Rightarrow> byte list \<Rightarrow> Parser" where
  "withData q rl off pl =
     q\<lparr>field := pl @ drop (unat rl) (field q), err := None,
       b := drop (2 * unat rl) (b q), sum' := sum' q + sum_list pl,
       data := \<lparr>Address = address q off,
                Bytes = (0, if \<not> useLBA q \<and> 65536 < unat off + unat rl
                            then unat off + unat rl - 65536 else unat rl)\<rparr>,
       wrap := (if \<not> useLBA q \<and> 65536 < unat off + unat rl
                then Some \<lparr>Address = sba q +
                              ((of_int (int (unat off) + int (unat rl) - 1) :: uint32)
                               AND 0xffff),
                           Bytes = (unat off + unat rl - 65536, 65536 - unat off)\<rparr>
                else wrap q)\<rparr>"

text \<open>
  \<open>calls n p\<close>: what a caller sees in \<open>n\<close> calls of \<open>Parse\<close> in a row: for each call the
  returned flag, \<open>Err()\<close>, and the address and the bytes of \<open>Data()\<close> right after it.
\<close>

fun calls :: "nat \<Rightarrow> Parser \<Rightarrow> (fault + bool \<times> error option \<times> uint32 \<times> byte list) list" where
  "calls 0 p = []"
| "calls (Suc n) p =
     (case Parse p of
        Inl f \<Rightarrow> [Inl f]
      | Inr (ok, p1) \<Rightarrow>
          Inr (ok, Err p1, Address (Data p1), deref p1 (Bytes (Data p1))) # calls n p1)"

text \<open>
  \<open>reaches p q\<close>: the parser \<open>q\<close> is what the parser \<open>p\<close> has become after some number of
  calls of \<open>Parse\<close> that returned.
\<close>

inductive reaches :: "Parser \<Rightarrow> Parser \<Rightarrow> bool" where
  start: "reaches p p"
| call: "reaches p q \<Longrightarrow> Parse q = Inr (r, q') \<Longrightarrow> reaches p q'"

text \<open>Every function below \<open>Parse\<close> leaves the base-mode fields alone, except \<open>parseInfo\<close>.\<close>

definition same_modes :: "Parser \<Rightarrow> Parser \<Rightarrow> bool" where
  "same_modes p p' \<longleftrightarrow>
     useSBA p' = useSBA p \<and> useLBA p' = useLBA p \<and> sba p' = sba p \<and> lba p' = lba p"

definition modes_ok :: "Parser \<Rightarrow> bool" where
  "modes_ok p \<longleftrightarrow>
     \<not> (useSBA p \<and> useLBA p) \<and> (\<not> useSBA p \<longrightarrow> sba p = 0) \<and> (\<not> useLBA p \<longrightarrow> lba p = 0)"

text \<open>
  For the line number of \<open>record after end\<close>: \<open>taken N p\<close> is the number of lines the
  scanner has handed out when it held \<open>N\<close> lines at the start.
\<close>

definition isRAE :: "error option \<Rightarrow> bool" where
  "isRAE x \<longleftrightarrow> (\<exists>n. x = Some (ParseError n ''record after end''))"

definition taken :: "nat \<Rightarrow> Parser \<Rightarrow> int" where
  "taken N p = int N - int (length (pending (scanner p)))"

definition count_ok :: "nat \<Rightarrow> Parser \<Rightarrow> bool" where
  "count_ok N p \<longleftrightarrow>
     (isRAE (err p) \<longrightarrow>
        err p = Some (ParseError (line p) ''record after end'') \<and> taken N p = line p + 1) \<and>
     (\<not> isRAE (err p) \<longrightarrow> taken N p = line p)"

definition quiet :: "Parser \<Rightarrow> Parser \<Rightarrow> bool" where
  "quiet p p' \<longleftrightarrow>
     scanner p' = scanner p \<and> line p' = line p \<and>
     (err p' = err p \<or> err p = None \<and> \<not> isRAE (err p'))"

section \<open>The scanner is only touched by \<open>scanLine\<close>\<close>

lemma readFieldInto_scanner:
  "readFieldInto n foff p = Inr (r, p') \<Longrightarrow> scanner p' = scanner p"
  by (auto simp: readFieldInto_def Let_def split: if_splits prod.splits)

lemma readField_scanner:
  "readField n p = Inr (r, p') \<Longrightarrow> scanner p' = scanner p"
  unfolding readField_def by (rule readFieldInto_scanner)

lemma readByteField_scanner:
  "readByteField p = Inr (r, p') \<Longrightarrow> scanner p' = scanner p"
  by (auto simp: readByteField_def split: sum.splits prod.splits if_splits
      dest: readField_scanner)

lemma readWordField_scanner:
  "readWordField p = Inr (r, p') \<Longrightarrow> scanner p' = scanner p"
  by (auto simp: readWordField_def split: sum.splits prod.splits if_splits
      dest: readField_scanner)

lemma checkRecLen_scanner:
  "checkRecLen t n p = Inr p' \<Longrightarrow> scanner p' = scanner p"
  by (auto simp: checkRecLen_def split: if_splits)

lemma endRecord_scanner:
  "endRecord p = Inr p' \<Longrightarrow> scanner p' = scanner p"
  by (auto simp: endRecord_def split: sum.splits prod.splits if_splits
      dest: readFieldInto_scanner)

lemma parseData_scanner:
  "parseData n off p = Inr p' \<Longrightarrow> scanner p' = scanner p"
  by (auto simp: parseData_def Let_def split: sum.splits prod.splits if_splits
      dest: readField_scanner)

lemma parseInfo_scanner:
  "parseInfo t n off p = Inr (r, p') \<Longrightarrow> scanner p' = scanner p"
  unfolding parseInfo_def
  by (simp split: if_splits sum.splits prod.splits)
     (auto dest!: readWordField_scanner endRecord_scanner parseData_scanner)

lemma Parse_loop_scanner:
  assumes "readByteField q = Inr (reclen, p2)"
    and "readWordField p2 = Inr (offset, p3)"
    and "readByteField p3 = Inr (rectyp, p4)"
    and "checkRecLen rectyp reclen p4 = Inr p5"
    and "parseInfo rectyp reclen offset p5 = Inr (g, p6)"
  shows "scanner p6 = scanner q"
  using assms
  by (simp add: readByteField_scanner readWordField_scanner checkRecLen_scanner
      parseInfo_scanner)

lemma scanLine_pending:
  "scanLine p = (True, p') \<Longrightarrow> length (pending (scanner p')) < length (pending (scanner p))"
  by (auto simp: scanLine_def Scan_def Let_def split: list.splits if_splits)

lemma NextRec_pending:
  assumes "NextRec p = Inr (None, p')"
  shows "length (pending (scanner p')) < length (pending (scanner p))"
proof -
  obtain r p1 where sl: "scanLine p = (r, p1)"
    by (cases "scanLine p")
  from assms sl have r: "r" and e: "err p = None" "wrap p = None"
    by (auto simp: NextRec_def split: if_splits option.splits bool.splits)
  have lt: "length (pending (scanner p1)) < length (pending (scanner p))"
    using sl r scanLine_pending by simp
  show ?thesis
  proof (cases "length (tline (cur (scanner p1))) = 0")
    case True
    then show ?thesis
      using assms sl r e lt by (simp add: NextRec_def)
  next
    case False
    let ?q = "p1\<lparr>b := tl (tline (cur (scanner p1))), bcap := tslack (cur (scanner p1)),
                  sum' := 0\<rparr>"
    from assms sl r e False
    obtain reclen p2 offset p3 rectyp p4 p5 g where
      "readByteField ?q = Inr (reclen, p2)" "readWordField p2 = Inr (offset, p3)"
      "readByteField p3 = Inr (rectyp, p4)" "checkRecLen rectyp reclen p4 = Inr p5"
      "parseInfo rectyp reclen offset p5 = Inr (g, p')"
      by (auto simp: NextRec_def Let_def split: if_splits sum.splits prod.splits)
    then have "scanner p' = scanner ?q"
      by (rule Parse_loop_scanner)
    then show ?thesis
      using lt by simp
  qed
qed

termination Parse
proof (relation "measure (\<lambda>p. length (pending (scanner p)))", goal_cases)
  case 1
  show ?case by simp
next
  case 2
  then show ?case
    by (auto dest!: NextRec_pending)
qed

declare Parse.simps [simp del]

lemma Parse_return: "NextRec p = Inr (Some r, p') \<Longrightarrow> Parse p = Inr (r, p')"
  by (subst Parse.simps) simp

lemma Parse_again: "NextRec p = Inr (None, p') \<Longrightarrow> Parse p = Parse p'"
  by (subst Parse.simps) simp

lemma Parse_fault: "NextRec p = Inl f \<Longrightarrow> Parse p = Inl f"
  by (subst Parse.simps) simp

section \<open>Decoding and reading fields\<close>

lemma Decode_length_le: "Decode s = (ds, e) \<Longrightarrow> 2 * length ds \<le> length s"
  by (induction s arbitrary: ds e rule: Decode.induct)
     (auto split: option.splits prod.splits)

lemma Decode_None_length: "Decode s = (ds, None) \<Longrightarrow> length s = 2 * length ds"
  by (induction s arbitrary: ds rule: Decode.induct)
     (auto split: option.splits prod.splits)

lemma Decode_Some_length: "Decode s = (ds, Some e) \<Longrightarrow> 2 * length ds < length s"
  by (induction s arbitrary: ds e rule: Decode.induct)
     (auto split: option.splits prod.splits)

lemma Decode_append:
  "Decode u = (ds, None) \<Longrightarrow> Decode (u @ v) = (case Decode v of (es, e) \<Rightarrow> (ds @ es, e))"
  by (induction u arbitrary: ds rule: Decode.induct)
     (auto split: option.splits prod.splits)

lemma Decode_take:
  "Decode s = (bs, None) \<Longrightarrow> Decode (take (2 * k) s) = (take k bs, None)"
proof (induction s arbitrary: bs k rule: Decode.induct)
  case (1 p q rest)
  then show ?case
    by (cases k) (auto split: option.splits prod.splits)
qed (auto split: option.splits)

lemma Decode_drop:
  "Decode s = (bs, None) \<Longrightarrow> Decode (drop (2 * k) s) = (drop k bs, None)"
proof (induction s arbitrary: bs k rule: Decode.induct)
  case (1 p q rest)
  then show ?case
    by (cases k) (auto split: option.splits prod.splits)
qed (auto split: option.splits)

lemma unat_byte_twice: "unat (n * 2 :: byte) = (2 * unat n) mod 256"
  by (simp add: unat_word_ariths mult.commute)

lemma byte_of_nat_less:
  "k < 128 \<Longrightarrow> ((of_nat k :: byte) < n) = (k < unat n)"
  by (simp add: word_less_nat_alt unat_of_nat)

lemma unat_byte_twice_small: "unat n < 128 \<Longrightarrow> unat (n * 2 :: byte) = 2 * unat n"
proof -
  assume a: "unat n < 128"
  have "unat (n * 2) = (2 * unat n) mod 256" by (rule unat_byte_twice)
  also have "\<dots> = 2 * unat n" using a by simp
  finally show ?thesis .
qed

lemma readFieldInto_ok:
  assumes "err p = None" and "unat n < 128" and "2 * unat n \<le> length (b p)"
    and "Decode (take (2 * unat n) (b p)) = (ds, None)"
    and "foff + unat n \<le> length (field p)"
  shows "readFieldInto n foff p =
           Inr ((foff, unat n),
                p\<lparr>field := take foff (field p) @ ds @ drop (foff + unat n) (field p),
                  err := None, b := drop (2 * unat n) (b p),
                  sum' := sum' p + sum_list ds\<rparr>)"
proof -
  have k: "unat (n * 2) = 2 * unat n"
    using assms(2) by (rule unat_byte_twice_small)
  have len: "length ds = unat n"
    using Decode_None_length [OF assms(4)] assms(3) by simp
  have tk: "take (2 * unat n) (b p @ bcap p) = take (2 * unat n) (b p)"
    using assms(3) by simp
  show ?thesis
    unfolding readFieldInto_def Let_def k tk assms(4)
    using assms(1,3,5) len by (simp add: mult.commute)
qed

lemma readFieldInto_Inr:
  assumes "err p = None" and "readFieldInto n foff p = Inr (s, p')"
  shows "(s = nil \<and> err p' = Some (ParseError (line p) ''record too short''))
       \<or> (err p' = None \<and> unat n < 128 \<and> 2 * unat n \<le> length (b p) \<and>
          foff + unat n \<le> length (field p) \<and>
          (\<exists>ds. Decode (take (2 * unat n) (b p)) = (ds, None)))"
proof -
  let ?k = "unat (n * 2)"
  obtain ds e where d: "Decode (take ?k (b p @ bcap p)) = (ds, e)"
    by (cases "Decode (take ?k (b p @ bcap p))")
  from assms d have bounds: "?k \<le> length (b p) + length (bcap p)"
    "foff + length ds \<le> length (field p)" "2 * length ds \<le> length (b p)"
    by (auto simp: readFieldInto_def Let_def split: if_splits)
  have k256: "?k = (2 * unat n) mod 256" by (rule unat_byte_twice)
  have lk: "length (take ?k (b p @ bcap p)) = ?k"
    using bounds(1) by simp
  have nd128: "length ds < 128"
    using Decode_length_le [OF d] lk k256 by arith
  show ?thesis
  proof (cases e)
    case None
    have nd: "2 * length ds = ?k"
      using Decode_None_length [of "take ?k (b p @ bcap p)" ds] d None lk by simp
    show ?thesis
    proof (cases "(of_nat (length ds) :: byte) < n")
      case True
      then show ?thesis
        using assms d bounds
        by (auto simp: readFieldInto_def Let_def makeError_def mult.commute)
    next
      case False
      then have "unat n \<le> length ds"
        using nd128 by (simp add: byte_of_nat_less)
      with nd k256 have n128: "unat n < 128" and ndn: "length ds = unat n"
        by arith+
      have tk: "take (2 * unat n) (b p @ bcap p) = take (2 * unat n) (b p)"
        using bounds(3) ndn by simp
      have "err p' = None"
        using assms d bounds False None
        by (auto simp: readFieldInto_def Let_def mult.commute)
      then show ?thesis
        using n128 ndn bounds d None tk k256 nd by auto
    qed
  next
    case (Some e')
    have "2 * length ds < ?k"
      using Decode_Some_length [of "take ?k (b p @ bcap p)" ds e'] d Some lk by simp
    then have "length ds < unat n" using k256 by arith
    then have "(of_nat (length ds) :: byte) < n"
      using nd128 by (simp add: byte_of_nat_less)
    then show ?thesis
      using assms d bounds
      by (auto simp: readFieldInto_def Let_def makeError_def mult.commute)
  qed
qed

lemma readByteField_ok:
  assumes "err p = None" and "2 \<le> length (b p)" and "Decode (take 2 (b p)) = ([x], None)"
    and "1 \<le> length (field p)"
  shows "readByteField p =
           Inr (x, p\<lparr>field := x # drop 1 (field p), err := None, b := drop 2 (b p),
                     sum' := sum' p + x\<rparr>)"
  using readFieldInto_ok [of p 1 "[x]" 0] assms
  by (simp add: readByteField_def readField_def deref_def)

lemma readWordField_ok:
  assumes "err p = None" and "4 \<le> length (b p)"
    and "Decode (take 4 (b p)) = ([x, y], None)" and "2 \<le> length (field p)"
  shows "readWordField p =
           Inr (push_bit 8 (ucast x) OR ucast y,
                p\<lparr>field := x # y # drop 2 (field p), err := None, b := drop 4 (b p),
                  sum' := sum' p + (x + y)\<rparr>)"
  using readFieldInto_ok [of p 2 "[x, y]" 0] assms
  by (simp add: readWordField_def readField_def deref_def flip: numeral_2_eq_2)

lemma scanLine_next:
  assumes "\<not> ended p" and "pending (scanner p) = t # ts"
  shows "scanLine p = (True, p\<lparr>scanner := (scanner p)\<lparr>pending := ts, cur := t\<rparr>,
                              line := line p + 1\<rparr>)"
  using assms by (simp add: scanLine_def Scan_def)

lemma Decode_header:
  assumes "Decode (take 8 l) = ([rl, oh, ol, ty], None)"
  shows "Decode (take 2 l) = ([rl], None)"
    and "Decode (take 4 (drop 2 l)) = ([oh, ol], None)"
    and "Decode (take 2 (drop 6 l)) = ([ty], None)"
proof -
  have "Decode (take (2 * 1) (take 8 l)) = (take 1 [rl, oh, ol, ty], None)"
    using assms by (rule Decode_take)
  then show "Decode (take 2 l) = ([rl], None)" by simp
  have d2: "Decode (drop (2 * 1) (take 8 l)) = (drop 1 [rl, oh, ol, ty], None)"
    using assms by (rule Decode_drop)
  have "Decode (take (2 * 2) (drop (2 * 1) (take 8 l))) = (take 2 (drop 1 [rl, oh, ol, ty]), None)"
    using d2 by (rule Decode_take)
  then show "Decode (take 4 (drop 2 l)) = ([oh, ol], None)"
    by (simp add: take_drop)
  have "Decode (drop (2 * 3) (take 8 l)) = (drop 3 [rl, oh, ol, ty], None)"
    using assms by (rule Decode_drop)
  then show "Decode (take 2 (drop 6 l)) = ([ty], None)"
    by (simp add: drop_take)
qed

lemma NextRec_header:
  assumes "err p = None" and "wrap p = None" and "\<not> ended p"
    and "pending (scanner p) = t # ts" and "tline t = CHR '':'' # l"
    and "8 \<le> length l" and "Decode (take 8 l) = ([rl, oh, ol, ty], None)"
    and "2 \<le> length (field p)"
  shows "NextRec p =
          (case checkRecLen ty rl (header p t ts rl oh ol ty) of
             Inl f \<Rightarrow> Inl f
           | Inr p5 \<Rightarrow>
               (case parseInfo ty rl (push_bit 8 (ucast oh) OR ucast ol) p5 of
                  Inl f \<Rightarrow> Inl f
                | Inr (g, p6) \<Rightarrow>
                    if \<not> g then Inr (None, p6) else Inr (Some (err p6 = None), p6)))"
proof -
  let ?p1 = "p\<lparr>scanner := (scanner p)\<lparr>pending := ts, cur := t\<rparr>, line := line p + 1\<rparr>"
  let ?q = "?p1\<lparr>b := tl (tline (cur (scanner ?p1))),
                 bcap := tslack (cur (scanner ?p1)), sum' := 0\<rparr>"
  let ?p2 = "?q\<lparr>field := rl # drop 1 (field ?q), err := None, b := drop 2 (b ?q),
                  sum' := sum' ?q + rl\<rparr>"
  let ?p3 = "?p2\<lparr>field := oh # ol # drop 2 (field ?p2), err := None, b := drop 4 (b ?p2),
                  sum' := sum' ?p2 + (oh + ol)\<rparr>"
  let ?p4 = "?p3\<lparr>field := ty # drop 1 (field ?p3), err := None, b := drop 2 (b ?p3),
                  sum' := sum' ?p3 + ty\<rparr>"
  note dh = Decode_header [OF assms(7)]
  have sl: "scanLine p = (True, ?p1)"
    using assms(3,4) by (rule scanLine_next)
  have r1: "readByteField ?q = Inr (rl, ?p2)"
    using assms dh(1) by (intro readByteField_ok) simp_all
  have r2: "readWordField ?p2 = Inr (push_bit 8 (ucast oh) OR ucast ol, ?p3)"
    using assms dh(2) by (intro readWordField_ok) simp_all
  have r3: "readByteField ?p3 = Inr (ty, ?p4)"
    using assms dh(3) by (intro readByteField_ok) simp_all
  have p4: "?p4 = header p t ts rl oh ol ty"
    using assms(1,5) by (simp add: header_def ac_simps flip: numeral_2_eq_2)
  show ?thesis
    using sl r1 r2 r3 p4 assms(1,2,5) by (simp add: NextRec_def)
qed

lemma Parse_err: "err p \<noteq> None \<Longrightarrow> Parse p = Inr (False, p)"
  by (rule Parse_return) (simp add: NextRec_def)

lemma Decode_split:
  assumes "Decode s = (xs @ ys, None)"
  shows "Decode (take (2 * length xs) s) = (xs, None)"
    and "Decode (drop (2 * length xs) s) = (ys, None)"
    and "2 * length xs \<le> length s"
  using Decode_take [OF assms, of "length xs"] Decode_drop [OF assms, of "length xs"]
    Decode_None_length [OF assms]
  by simp_all

lemma readByteField_dec:
  assumes "err p = None" and "Decode (b p) = (x # rest, None)" and "field p \<noteq> []"
  shows "readByteField p =
           Inr (x, p\<lparr>field := x # drop 1 (field p), err := None, b := drop 2 (b p),
                     sum' := sum' p + x\<rparr>)"
proof -
  note s = Decode_split [of "b p" "[x]" rest]
  show ?thesis
    using assms s by (intro readByteField_ok) (simp_all add: Suc_le_eq)
qed

lemma readWordField_dec:
  assumes "err p = None" and "Decode (b p) = (x # y # rest, None)"
    and "2 \<le> length (field p)"
  shows "readWordField p =
           Inr (push_bit 8 (ucast x) OR ucast y,
                p\<lparr>field := x # y # drop 2 (field p), err := None, b := drop 4 (b p),
                  sum' := sum' p + (x + y)\<rparr>)"
proof -
  note s = Decode_split [of "b p" "[x, y]" rest]
  show ?thesis
    using assms s by (intro readWordField_ok) simp_all
qed

lemma endRecord_dec:
  assumes "err q = None" and "Decode (b q) = (ck # tr, None)" and "length (field q) = 256"
  shows "endRecord q = Inr (finish q ck tr)"
proof -
  note s = Decode_split [of "b q" "[ck]" tr]
  have l: "length (b q) = 2 + 2 * length tr"
    using Decode_None_length [OF assms(2)] by simp
  have r: "readFieldInto 1 255 q =
             Inr ((255, 1), q\<lparr>field := take 255 (field q) @ [ck] @ drop 256 (field q),
                                err := None, b := drop 2 (b q), sum' := sum' q + ck\<rparr>)"
    using readFieldInto_ok [of q 1 "[ck]" 255] assms s by simp
  show ?thesis
    using assms(3) l
    by (simp add: endRecord_def r finish_def makeError_def)
qed

lemma NextRec_header_dec:
  assumes "err p = None" and "wrap p = None" and "\<not> ended p"
    and "pending (scanner p) = t # ts" and "tline t = CHR '':'' # l"
    and "Decode l = (rl # oh # ol # ty # rest, None)"
    and "2 \<le> length (field p)"
  shows "NextRec p =
          (case checkRecLen ty rl (header p t ts rl oh ol ty) of
             Inl f \<Rightarrow> Inl f
           | Inr p5 \<Rightarrow>
               (case parseInfo ty rl (push_bit 8 (ucast oh) OR ucast ol) p5 of
                  Inl f \<Rightarrow> Inl f
                | Inr (g, p6) \<Rightarrow>
                    if \<not> g then Inr (None, p6) else Inr (Some (err p6 = None), p6)))"
    and "Decode (b (header p t ts rl oh ol ty)) = (rest, None)"
proof -
  note s = Decode_split [of l "[rl, oh, ol, ty]" rest]
  show "NextRec p =
          (case checkRecLen ty rl (header p t ts rl oh ol ty) of
             Inl f \<Rightarrow> Inl f
           | Inr p5 \<Rightarrow>
               (case parseInfo ty rl (push_bit 8 (ucast oh) OR ucast ol) p5 of
                  Inl f \<Rightarrow> Inl f
                | Inr (g, p6) \<Rightarrow>
                    if \<not> g then Inr (None, p6) else Inr (Some (err p6 = None), p6)))"
    using assms s by (intro NextRec_header) simp_all
  show "Decode (b (header p t ts rl oh ol ty)) = (rest, None)"
    using assms s by (simp add: header_def)
qed

lemma header_sel [simp]:
  "err (header p t ts rl oh ol ty) = None"
  "line (header p t ts rl oh ol ty) = line p + 1"
  "length (field (header p t ts rl oh ol ty)) = 2 + (length (field p) - 2)"
  "sum' (header p t ts rl oh ol ty) = rl + oh + ol + ty"
  "scanner (header p t ts rl oh ol ty) = (scanner p)\<lparr>pending := ts, cur := t\<rparr>"
  "useSBA (header p t ts rl oh ol ty) = useSBA p"
  "useLBA (header p t ts rl oh ol ty) = useLBA p"
  "sba (header p t ts rl oh ol ty) = sba p"
  "lba (header p t ts rl oh ol ty) = lba p"
  "wrap (header p t ts rl oh ol ty) = wrap p"
  "ended (header p t ts rl oh ol ty) = ended p"
  by (simp_all add: header_def)

lemma Parse_after_end:
  assumes "err p = None" and "wrap p = None" and "ended p"
    and "pending (scanner p) = t # ts"
  shows "Parse p = Inr (False, p\<lparr>scanner := (scanner p)\<lparr>pending := ts, cur := t\<rparr>,
                                 err := Some (ParseError (line p) ''record after end'')\<rparr>)"
  using assms
  by (intro Parse_return) (simp add: NextRec_def scanLine_def Scan_def makeError_def)

lemma Record_upd: "r\<lparr>Address := a, Bytes := x\<rparr> = \<lparr>Address = a, Bytes = x\<rparr>"
  by (cases r) simp

lemma parseData_dec:
  assumes "err q = None" and "Decode (b q) = (pl @ rest, None)" and "length pl = unat rl"
    and "unat rl < 128" and "unat rl \<le> length (field q)"
  shows "parseData rl off q = Inr (withData q rl off pl)"
proof -
  note s = Decode_split [of "b q" pl rest]
  have r: "readField rl q =
             Inr ((0, unat rl),
                  q\<lparr>field := take 0 (field q) @ pl @ drop (0 + unat rl) (field q),
                    err := None, b := drop (2 * unat rl) (b q),
                    sum' := sum' q + sum_list pl\<rparr>)"
    unfolding readField_def
    using assms s by (intro readFieldInto_ok) simp_all
  have o: "unat off < 65536"
    using unsigned_less [of off, where ?'a = nat] by simp
  have ex: "nat (uint off + uint rl - 65536) = unat off + unat rl - 65536"
    by (unfold uint_nat) linarith
  have gt: "(65536 < uint off + uint rl) = (65536 < unat off + unat rl)"
    by (unfold uint_nat) linarith
  have nl: "\<not> unat rl < unat off + unat rl - 65536"
    using o by arith
  show ?thesis
  proof (cases "\<not> useLBA q \<and> 65536 < unat off + unat rl")
    case True
    then show ?thesis
      using o nl by (simp add: parseData_def r Let_def len_def address_def withData_def ex gt Record_upd)
  next
    case False
    then show ?thesis
      by (auto simp: parseData_def r Let_def len_def address_def withData_def ex gt Record_upd)
  qed
qed

lemma parseInfo_data:
  assumes "err q = None" and "Decode (b q) = (pl @ ck # tr, None)" and "length pl = unat rl"
    and "unat rl < 128" and "length (field q) = 256"
  shows "parseInfo 0 rl off q = Inr (True, finish (withData q rl off pl) ck tr)"
proof -
  have d: "parseData rl off q = Inr (withData q rl off pl)"
    using assms by (intro parseData_dec [where rest = "ck # tr"]) simp_all
  have "Decode (b (withData q rl off pl)) = (ck # tr, None)"
    using Decode_split(2) [of "b q" pl "ck # tr"] assms(2,3) by (simp add: withData_def)
  then have "endRecord (withData q rl off pl) = Inr (finish (withData q rl off pl) ck tr)"
    using assms by (intro endRecord_dec) (simp_all add: withData_def)
  then show ?thesis
    using assms(1) d by (simp add: parseInfo_def)
qed

lemma parseInfo_end:
  assumes "err q = None" and "Decode (b q) = (ck # tr, None)" and "length (field q) = 256"
  shows "parseInfo 1 rl off q = Inr (False, finish (q\<lparr>ended := True\<rparr>) ck tr)"
proof -
  have "endRecord (q\<lparr>ended := True\<rparr>) = Inr (finish (q\<lparr>ended := True\<rparr>) ck tr)"
    using assms by (intro endRecord_dec) simp_all
  then show ?thesis
    using assms(1) by (simp add: parseInfo_def)
qed

lemma parseInfo_sba:
  assumes "err q = None" and "Decode (b q) = (x # y # ck # tr, None)"
    and "length (field q) = 256"
  shows "parseInfo 2 rl off q =
           Inr (False,
                finish (q\<lparr>field := x # y # drop 2 (field q), err := None,
                          b := drop 4 (b q), sum' := sum' q + (x + y),
                          sba := push_bit 4 (ucast (word16 x y)), useSBA := True,
                          lba := 0, useLBA := False\<rparr>) ck tr)"
    (is "_ = Inr (False, finish ?q2 ck tr)")
proof -
  have w: "readWordField q =
             Inr (word16 x y,
                  q\<lparr>field := x # y # drop 2 (field q), err := None, b := drop 4 (b q),
                    sum' := sum' q + (x + y)\<rparr>)"
    using assms by (intro readWordField_dec) simp_all
  have "Decode (b ?q2) = (ck # tr, None)"
    using Decode_split(2) [of "b q" "[x, y]" "ck # tr"] assms(2) by simp
  then have "endRecord ?q2 = Inr (finish ?q2 ck tr)"
    using assms by (intro endRecord_dec) simp_all
  then show ?thesis
    using assms(1) w by (simp add: parseInfo_def)
qed

lemma parseInfo_lba:
  assumes "err q = None" and "Decode (b q) = (x # y # ck # tr, None)"
    and "length (field q) = 256"
  shows "parseInfo 4 rl off q =
           Inr (False,
                finish (q\<lparr>sba := 0, useSBA := False,
                          field := x # y # drop 2 (field q), err := None,
                          b := drop 4 (b q), sum' := sum' q + (x + y),
                          lba := push_bit 16 (ucast (word16 x y)), useLBA := True\<rparr>) ck tr)"
    (is "_ = Inr (False, finish ?q2 ck tr)")
proof -
  let ?q0 = "q\<lparr>sba := 0, useSBA := False\<rparr>"
  have w: "readWordField ?q0 =
             Inr (word16 x y,
                  ?q0\<lparr>field := x # y # drop 2 (field ?q0), err := None, b := drop 4 (b ?q0),
                    sum' := sum' ?q0 + (x + y)\<rparr>)"
    using assms by (intro readWordField_dec) simp_all
  have "Decode (b ?q2) = (ck # tr, None)"
    using Decode_split(2) [of "b q" "[x, y]" "ck # tr"] assms(2) by simp
  then have "endRecord ?q2 = Inr (finish ?q2 ck tr)"
    using assms by (intro endRecord_dec) simp_all
  then show ?thesis
    using assms(1) w by (simp add: parseInfo_def)
qed

lemma parseInfo_csip:
  assumes "err q = None" and "Decode (b q) = (x # y # x' # y' # ck # tr, None)"
    and "length (field q) = 256"
  shows "parseInfo 3 rl off q =
           Inr (False,
                finish (q\<lparr>field := x' # y' # drop 2 (field q), err := None,
                          b := drop 8 (b q), sum' := sum' q + (x + y) + (x' + y'),
                          cs := word16 x y, ip := word16 x' y', hasCSIP := True\<rparr>) ck tr)"
    (is "_ = Inr (False, finish ?q3 ck tr)")
proof -
  define q1 where "q1 = q\<lparr>field := x # y # drop 2 (field q), err := None, b := drop 4 (b q),
                sum' := sum' q + (x + y)\<rparr>"
  define q1' where "q1' = q1\<lparr>cs := word16 x y\<rparr>"
  define q2 where "q2 = q1'\<lparr>field := x' # y' # drop 2 (field q1'), err := None,
                b := drop 4 (b q1'), sum' := sum' q1' + (x' + y')\<rparr>"
  define q3 where "q3 = q2\<lparr>ip := word16 x' y', hasCSIP := True\<rparr>"
  have w1: "readWordField q = Inr (word16 x y, q1)"
    unfolding q1_def using assms by (intro readWordField_dec) simp_all
  have d1: "Decode (b q1') = (x' # y' # ck # tr, None)"
    using Decode_split(2) [of "b q" "[x, y]" "x' # y' # ck # tr"] assms(2)
    by (simp add: q1'_def q1_def)
  have w2: "readWordField q1' = Inr (word16 x' y', q2)"
    unfolding q2_def using assms(3) d1
    by (intro readWordField_dec) (simp_all add: q1'_def q1_def)
  have d3: "Decode (b q3) = (ck # tr, None)"
    using Decode_split(2) [of "b q" "[x, y, x', y']" "ck # tr"] assms(2)
    by (simp add: q3_def q2_def q1'_def q1_def)
  have e: "endRecord q3 = Inr (finish q3 ck tr)"
    using d3 assms(3) by (intro endRecord_dec) (simp_all add: q3_def q2_def q1'_def q1_def)
  have "parseInfo 3 rl off q = Inr (False, finish q3 ck tr)"
    using assms(1) w1 w2 e by (simp add: parseInfo_def flip: q1'_def q3_def)
  moreover have "q3 = ?q3"
    by (simp add: q3_def q2_def q1'_def q1_def)
  ultimately show ?thesis by simp
qed

lemma parseInfo_eip:
  assumes "err q = None" and "Decode (b q) = (x # y # x' # y' # ck # tr, None)"
    and "length (field q) = 256"
  shows "parseInfo 5 rl off q =
           Inr (False,
                finish (q\<lparr>field := x' # y' # drop 2 (field q), err := None,
                          b := drop 8 (b q), sum' := sum' q + (x + y) + (x' + y'),
                          eip := push_bit 16 (ucast (word16 x y)) OR ucast (word16 x' y'),
                          hasEIP := True\<rparr>) ck tr)"
    (is "_ = Inr (False, finish ?q3 ck tr)")
proof -
  define q1 where "q1 = q\<lparr>field := x # y # drop 2 (field q), err := None, b := drop 4 (b q),
                sum' := sum' q + (x + y)\<rparr>"
  define q1' where "q1' = q1\<lparr>eip := push_bit 16 (ucast (word16 x y))\<rparr>"
  define q2 where "q2 = q1'\<lparr>field := x' # y' # drop 2 (field q1'), err := None,
                b := drop 4 (b q1'), sum' := sum' q1' + (x' + y')\<rparr>"
  define q3 where "q3 = q2\<lparr>eip := eip q2 OR ucast (word16 x' y'), hasEIP := True\<rparr>"
  have w1: "readWordField q = Inr (word16 x y, q1)"
    unfolding q1_def using assms by (intro readWordField_dec) simp_all
  have d1: "Decode (b q1') = (x' # y' # ck # tr, None)"
    using Decode_split(2) [of "b q" "[x, y]" "x' # y' # ck # tr"] assms(2)
    by (simp add: q1'_def q1_def)
  have w2: "readWordField q1' = Inr (word16 x' y', q2)"
    unfolding q2_def using assms(3) d1
    by (intro readWordField_dec) (simp_all add: q1'_def q1_def)
  have d3: "Decode (b q3) = (ck # tr, None)"
    using Decode_split(2) [of "b q" "[x, y, x', y']" "ck # tr"] assms(2)
    by (simp add: q3_def q2_def q1'_def q1_def)
  have e: "endRecord q3 = Inr (finish q3 ck tr)"
    using d3 assms(3) by (intro endRecord_dec) (simp_all add: q3_def q2_def q1'_def q1_def)
  have "parseInfo 5 rl off q = Inr (False, finish q3 ck tr)"
    using assms(1) w1 w2 e by (simp add: parseInfo_def flip: q1'_def q3_def)
  moreover have "q3 = ?q3"
    by (simp add: q3_def q2_def q1'_def q1_def)
  ultimately show ?thesis by simp
qed

lemma checkRecLen_ok:
  assumes "err q = None" and "unat ty < 6" and "0 < ty \<Longrightarrow> rl = reclens ! unat ty"
  shows "checkRecLen ty rl q = Inr q"
  using assms by (simp add: checkRecLen_def reclens_def)

lemma Parse_wrap:
  "err p = None \<Longrightarrow> wrap p = Some w \<Longrightarrow> Parse p = Inr (True, p\<lparr>data := w, wrap := None\<rparr>)"
  by (rule Parse_return) (simp add: NextRec_def)

lemma NextRec_unknown_type:
  assumes "err p = None" and "wrap p = None" and "\<not> ended p"
    and "pending (scanner p) = t # ts" and "tline t = CHR '':'' # l"
    and "Decode l = (rl # oh # ol # ty # rest, None)"
    and "2 \<le> length (field p)" and "5 < ty"
  shows "NextRec p = Inl IndexRange"
proof -
  have "5 < unat ty" using assms(8) by (simp add: word_less_nat_alt)
  then have "checkRecLen ty rl (header p t ts rl oh ol ty) = Inl IndexRange"
    using assms(8) by (simp add: checkRecLen_def reclens_def word_less_nat_alt)
  then show ?thesis
    using NextRec_header_dec(1) [OF assms(1-7)] by simp
qed

lemma NextRec_record:
  assumes "err p = None" and "wrap p = None" and "\<not> ended p"
    and "pending (scanner p) = t # ts" and "tline t = CHR '':'' # l"
    and "Decode l = (rl # oh # ol # ty # rest, None)"
    and "length (field p) = 256"
    and "unat ty < 6" and "0 < ty \<Longrightarrow> rl = reclens ! unat ty"
    and "parseInfo ty rl (word16 oh ol) (header p t ts rl oh ol ty) = Inr (g, F)"
  shows "NextRec p = (if g then Inr (Some (err F = None), F) else Inr (None, F))"
proof -
  have f: "2 \<le> length (field p)" using assms(7) by simp
  note h = NextRec_header_dec [OF assms(1-6) f]
  have c: "checkRecLen ty rl (header p t ts rl oh ol ty) = Inr (header p t ts rl oh ol ty)"
    using assms(8,9) by (intro checkRecLen_ok) simp_all
  show ?thesis
    by (simp add: h(1) c assms(10))
qed

lemma header_ready:
  assumes "err p = None" and "wrap p = None" and "\<not> ended p"
    and "pending (scanner p) = t # ts" and "tline t = CHR '':'' # l"
    and "Decode l = (rl # oh # ol # ty # rest, None)"
    and "length (field p) = 256"
  shows "err (header p t ts rl oh ol ty) = None"
    and "Decode (b (header p t ts rl oh ol ty)) = (rest, None)"
    and "length (field (header p t ts rl oh ol ty)) = 256"
proof -
  have f: "2 \<le> length (field p)" using assms(7) by simp
  show "Decode (b (header p t ts rl oh ol ty)) = (rest, None)"
    by (rule NextRec_header_dec(2) [OF assms(1-6) f])
qed (simp_all add: assms(7))

lemma NextRec_data:
  assumes "err p = None" and "wrap p = None" and "\<not> ended p"
    and "pending (scanner p) = t # ts" and "tline t = CHR '':'' # l"
    and "Decode l = (rl # oh # ol # 0 # pl @ ck # tr, None)"
    and "length (field p) = 256" and "length pl = unat rl" and "unat rl < 128"
  shows "NextRec p =
           Inr (Some (err (finish (withData (header p t ts rl oh ol 0) rl (word16 oh ol) pl)
                                  ck tr) = None),
                finish (withData (header p t ts rl oh ol 0) rl (word16 oh ol) pl) ck tr)"
proof -
  note h = header_ready [OF assms(1-7)]
  have "parseInfo 0 rl (word16 oh ol) (header p t ts rl oh ol 0) =
          Inr (True, finish (withData (header p t ts rl oh ol 0) rl (word16 oh ol) pl) ck tr)"
    using h assms(8,9) by (intro parseInfo_data)
  from NextRec_record [OF assms(1-7) _ _ this] show ?thesis by simp
qed

lemma NextRec_end:
  assumes "err p = None" and "wrap p = None" and "\<not> ended p"
    and "pending (scanner p) = t # ts" and "tline t = CHR '':'' # l"
    and "Decode l = (0 # oh # ol # 1 # ck # tr, None)"
    and "length (field p) = 256"
  shows "NextRec p = Inr (None, finish ((header p t ts 0 oh ol 1)\<lparr>ended := True\<rparr>) ck tr)"
proof -
  note h = header_ready [OF assms(1-7)]
  have "parseInfo 1 0 (word16 oh ol) (header p t ts 0 oh ol 1) =
          Inr (False, finish ((header p t ts 0 oh ol 1)\<lparr>ended := True\<rparr>) ck tr)"
    using h by (intro parseInfo_end)
  from NextRec_record [OF assms(1-7) _ _ this] show ?thesis by (simp add: reclens_def)
qed

lemma NextRec_sba:
  assumes "err p = None" and "wrap p = None" and "\<not> ended p"
    and "pending (scanner p) = t # ts" and "tline t = CHR '':'' # l"
    and "Decode l = (2 # oh # ol # 2 # x # y # ck # tr, None)"
    and "length (field p) = 256"
  shows "NextRec p =
           Inr (None,
                finish ((header p t ts 2 oh ol 2)
                         \<lparr>field := x # y # drop 2 (field (header p t ts 2 oh ol 2)),
                          err := None, b := drop 4 (b (header p t ts 2 oh ol 2)),
                          sum' := sum' (header p t ts 2 oh ol 2) + (x + y),
                          sba := push_bit 4 (ucast (word16 x y)), useSBA := True,
                          lba := 0, useLBA := False\<rparr>) ck tr)"
proof -
  note h = header_ready [OF assms(1-7)]
  note i = parseInfo_sba [OF h(1,2,3), of 2 "word16 oh ol"]
  from NextRec_record [OF assms(1-7) _ _ i] show ?thesis by (simp add: reclens_def)
qed

lemma NextRec_lba:
  assumes "err p = None" and "wrap p = None" and "\<not> ended p"
    and "pending (scanner p) = t # ts" and "tline t = CHR '':'' # l"
    and "Decode l = (2 # oh # ol # 4 # x # y # ck # tr, None)"
    and "length (field p) = 256"
  shows "NextRec p =
           Inr (None,
                finish ((header p t ts 2 oh ol 4)
                         \<lparr>sba := 0, useSBA := False,
                          field := x # y # drop 2 (field (header p t ts 2 oh ol 4)),
                          err := None, b := drop 4 (b (header p t ts 2 oh ol 4)),
                          sum' := sum' (header p t ts 2 oh ol 4) + (x + y),
                          lba := push_bit 16 (ucast (word16 x y)), useLBA := True\<rparr>) ck tr)"
proof -
  note h = header_ready [OF assms(1-7)]
  note i = parseInfo_lba [OF h(1,2,3), of 2 "word16 oh ol"]
  from NextRec_record [OF assms(1-7) _ _ i] show ?thesis by (simp add: reclens_def)
qed

lemma NextRec_csip:
  assumes "err p = None" and "wrap p = None" and "\<not> ended p"
    and "pending (scanner p) = t # ts" and "tline t = CHR '':'' # l"
    and "Decode l = (4 # oh # ol # 3 # x # y # x' # y' # ck # tr, None)"
    and "length (field p) = 256"
  shows "NextRec p =
           Inr (None,
                finish ((header p t ts 4 oh ol 3)
                         \<lparr>field := x' # y' # drop 2 (field (header p t ts 4 oh ol 3)),
                          err := None, b := drop 8 (b (header p t ts 4 oh ol 3)),
                          sum' := sum' (header p t ts 4 oh ol 3) + (x + y) + (x' + y'),
                          cs := word16 x y, ip := word16 x' y', hasCSIP := True\<rparr>) ck tr)"
proof -
  note h = header_ready [OF assms(1-7)]
  note i = parseInfo_csip [OF h(1,2,3), of 4 "word16 oh ol"]
  from NextRec_record [OF assms(1-7) _ _ i] show ?thesis by (simp add: reclens_def)
qed

lemma NextRec_eip:
  assumes "err p = None" and "wrap p = None" and "\<not> ended p"
    and "pending (scanner p) = t # ts" and "tline t = CHR '':'' # l"
    and "Decode l = (4 # oh # ol # 5 # x # y # x' # y' # ck # tr, None)"
    and "length (field p) = 256"
  shows "NextRec p =
           Inr (None,
                finish ((header p t ts 4 oh ol 5)
                         \<lparr>field := x' # y' # drop 2 (field (header p t ts 4 oh ol 5)),
                          err := None, b := drop 8 (b (header p t ts 4 oh ol 5)),
                          sum' := sum' (header p t ts 4 oh ol 5) + (x + y) + (x' + y'),
                          eip := push_bit 16 (ucast (word16 x y)) OR ucast (word16 x' y'),
                          hasEIP := True\<rparr>) ck tr)"
proof -
  note h = header_ready [OF assms(1-7)]
  note i = parseInfo_eip [OF h(1,2,3), of 4 "word16 oh ol"]
  from NextRec_record [OF assms(1-7) _ _ i] show ?thesis by (simp add: reclens_def)
qed

lemma new_ready:
  "err (NewParser ts e) = None" "wrap (NewParser ts e) = None" "\<not> ended (NewParser ts e)"
  "pending (scanner (NewParser ts e)) = ts" "length (field (NewParser ts e)) = 256"
  "line (NewParser ts e) = 0" "\<not> useSBA (NewParser ts e)" "\<not> useLBA (NewParser ts e)"
  "sba (NewParser ts e) = 0" "lba (NewParser ts e) = 0"
  "final (scanner (NewParser ts e)) = e"
  by (simp_all add: NewParser_def NewScanner_def)

lemma finish_sel [simp]:
  "line (finish q ck tr) = line q" "scanner (finish q ck tr) = scanner q"
  "wrap (finish q ck tr) = wrap q" "ended (finish q ck tr) = ended q"
  "data (finish q ck tr) = data q"
  "useSBA (finish q ck tr) = useSBA q" "useLBA (finish q ck tr) = useLBA q"
  "sba (finish q ck tr) = sba q" "lba (finish q ck tr) = lba q"
  "cs (finish q ck tr) = cs q" "ip (finish q ck tr) = ip q" "hasCSIP (finish q ck tr) = hasCSIP q"
  "eip (finish q ck tr) = eip q" "hasEIP (finish q ck tr) = hasEIP q"
  "length (field (finish q ck tr)) = min (length (field q)) 255 + 1"
  "err (finish q ck tr) =
     (if sum' q + ck \<noteq> 0 then Some (ParseError (line q) ''invalid checksum'')
      else if tr \<noteq> [] then Some (ParseError (line q) ''trailing data'')
      else None)"
  by (simp_all add: finish_def)

lemma deref_finish:
  assumes "fst s + snd s \<le> 255" and "255 \<le> length (field q)"
  shows "deref (finish q ck tr) s = deref q s"
proof -
  obtain a n where s: "s = (a, n)" by (cases s)
  have an: "a + n \<le> 255" using assms(1) s by simp
  have "take n (drop a (take 255 (field q) @ [ck])) = take n (drop a (take 255 (field q)))"
    using an assms(2) by simp
  also have "\<dots> = take n (take (255 - a) (drop a (field q)))"
    by (simp add: drop_take)
  also have "\<dots> = take n (drop a (field q))"
    using an by (simp add: min_def)
  finally show ?thesis
    by (simp add: deref_def finish_def s)
qed

lemma readFieldInto_short:
  assumes "err p = None" and "unat n < 128"
    and "2 * unat n \<le> length (b p) + length (bcap p)"
    and "Decode (take (2 * unat n) (b p @ bcap p)) = (ds, Some e)"
    and "2 * length ds \<le> length (b p)" and "foff + length ds \<le> length (field p)"
  shows "readFieldInto n foff p =
           Inr (nil, p\<lparr>field := take foff (field p) @ ds @ drop (foff + length ds) (field p),
                        b := drop (2 * length ds) (b p),
                        err := Some (ParseError (line p) ''record too short'')\<rparr>)"
proof -
  have k: "unat (n * 2) = 2 * unat n"
    using assms(2) by (rule unat_byte_twice_small)
  have "2 * length ds < length (take (2 * unat n) (b p @ bcap p))"
    using assms(4) by (rule Decode_Some_length)
  then have lt: "length ds < unat n"
    using assms(3) by simp
  then have "(of_nat (length ds) :: byte) < n"
    using assms(2) by (simp add: byte_of_nat_less)
  then show ?thesis
    unfolding readFieldInto_def Let_def k assms(4)
    using assms(1,3,5,6) by (simp add: makeError_def mult.commute)
qed

lemma endRecord_short:
  assumes "err q = None" and "2 \<le> length (b q) + length (bcap q)"
    and "Decode (take 2 (b q @ bcap q)) = ([], Some e)" and "255 \<le> length (field q)"
  shows "endRecord q = Inr (q\<lparr>err := Some (ParseError (line q) ''record too short'')\<rparr>)"
proof -
  have "readFieldInto 1 255 q =
          Inr (nil, q\<lparr>field := take 255 (field q) @ [] @ drop (255 + length ([]::byte list)) (field q),
                       b := drop (2 * length ([]::byte list)) (b q),
                       err := Some (ParseError (line q) ''record too short'')\<rparr>)"
    using assms by (intro readFieldInto_short) simp_all
  then show ?thesis
    by (simp add: endRecord_def)
qed

lemma NextRec_end_short:
  assumes "err p = None" and "wrap p = None" and "\<not> ended p"
    and "pending (scanner p) = t # ts" and "tline t = CHR '':'' # l"
    and "8 \<le> length l" and "Decode (take 8 l) = ([0, oh, ol, 1], None)"
    and "length (field p) = 256"
    and "2 \<le> length (drop 8 l) + length (tslack t)"
    and "Decode (take 2 (drop 8 l @ tslack t)) = ([], Some e)"
  shows "NextRec p =
           Inr (None, (header p t ts 0 oh ol 1)
                        \<lparr>ended := True,
                         err := Some (ParseError (line p + 1) ''record too short'')\<rparr>)"
proof -
  let ?h = "header p t ts 0 oh ol 1"
  have f: "2 \<le> length (field p)" using assms(8) by simp
  note h = NextRec_header [OF assms(1-7) f]
  have c: "checkRecLen 1 0 ?h = Inr ?h"
    by (intro checkRecLen_ok) (simp_all add: reclens_def)
  have "endRecord (?h\<lparr>ended := True\<rparr>) =
          Inr (?h\<lparr>ended := True\<rparr>
                \<lparr>err := Some (ParseError (line (?h\<lparr>ended := True\<rparr>)) ''record too short'')\<rparr>)"
    using assms(5,8,9,10) by (intro endRecord_short) (simp_all add: header_def)
  then have "parseInfo 1 0 (word16 oh ol) ?h =
          Inr (False, ?h\<lparr>ended := True,
                          err := Some (ParseError (line p + 1) ''record too short'')\<rparr>)"
    by (simp add: parseInfo_def)
  then show ?thesis
    by (simp add: h c)
qed

lemma readFieldInto_modes:
  "readFieldInto n foff p = Inr (r, p') \<Longrightarrow> same_modes p p'"
  by (auto simp: readFieldInto_def Let_def same_modes_def split: if_splits prod.splits)

lemma readWordField_modes:
  "readWordField p = Inr (r, p') \<Longrightarrow> same_modes p p'"
  by (auto simp: readWordField_def readField_def split: sum.splits prod.splits if_splits
      dest: readFieldInto_modes)

lemma readByteField_modes:
  "readByteField p = Inr (r, p') \<Longrightarrow> same_modes p p'"
  by (auto simp: readByteField_def readField_def split: sum.splits prod.splits if_splits
      dest: readFieldInto_modes)

lemma checkRecLen_modes:
  "checkRecLen t n p = Inr p' \<Longrightarrow> same_modes p p'"
  by (auto simp: checkRecLen_def same_modes_def split: if_splits)

lemma endRecord_modes:
  "endRecord p = Inr p' \<Longrightarrow> same_modes p p'"
  by (auto simp: endRecord_def same_modes_def split: sum.splits prod.splits if_splits
      dest!: readFieldInto_modes)

lemma parseData_modes:
  "parseData n off p = Inr p' \<Longrightarrow> same_modes p p'"
  by (auto simp: parseData_def readField_def Let_def same_modes_def
      split: sum.splits prod.splits if_splits dest!: readFieldInto_modes)

lemma scanLine_modes:
  "scanLine p = (r, p') \<Longrightarrow> same_modes p p'"
  by (auto simp: scanLine_def Let_def same_modes_def split: prod.splits bool.splits if_splits)

lemma same_modes_ok: "same_modes p p' \<Longrightarrow> modes_ok p \<Longrightarrow> modes_ok p'"
  by (simp add: same_modes_def modes_ok_def)

lemma parseInfo_modes_ok:
  assumes "parseInfo t n off p = Inr (r, p')" and "modes_ok p"
  shows "modes_ok p'"
  using assms unfolding parseInfo_def
  by (simp split: if_splits sum.splits prod.splits)
     (auto dest!: readWordField_modes endRecord_modes parseData_modes
           simp: same_modes_def modes_ok_def)

lemma NextRec_preserves:
  assumes sl: "\<And>p r p'. P p \<Longrightarrow> err p = None \<Longrightarrow> scanLine p = (r, p') \<Longrightarrow> P p'"
    and pop: "\<And>p w. P p \<Longrightarrow> P (p\<lparr>data := w, wrap := None\<rparr>)"
    and mark: "\<And>p. P p \<Longrightarrow> err p = None \<Longrightarrow>
                 P (p\<lparr>err := Some (makeError p ''missing record mark'')\<rparr>)"
    and init: "\<And>p l c. P p \<Longrightarrow> P (p\<lparr>b := l, bcap := c, sum' := 0\<rparr>)"
    and rb: "\<And>p r p'. P p \<Longrightarrow> readByteField p = Inr (r, p') \<Longrightarrow> P p'"
    and rw: "\<And>p r p'. P p \<Longrightarrow> readWordField p = Inr (r, p') \<Longrightarrow> P p'"
    and cl: "\<And>p t n p'. P p \<Longrightarrow> checkRecLen t n p = Inr p' \<Longrightarrow> P p'"
    and pi: "\<And>p t n off r p'. P p \<Longrightarrow> parseInfo t n off p = Inr (r, p') \<Longrightarrow> P p'"
    and P: "P p" and N: "NextRec p = Inr (r, p')"
  shows "P p'"
proof (cases "err p \<noteq> None")
  case True
  then show ?thesis using N P by (simp add: NextRec_def)
next
  case e: False
  show ?thesis
  proof (cases "wrap p")
    case (Some w)
    then show ?thesis using N P e pop [of p w] by (auto simp: NextRec_def)
  next
    case None
    obtain ok p1 where s: "scanLine p = (ok, p1)" by (cases "scanLine p")
    have p1: "P p1" using sl [OF P _ s] e by simp
    have e1: "ok \<Longrightarrow> err p1 = None"
      using s e by (auto simp: scanLine_def Let_def split: prod.splits bool.splits if_splits)
    show ?thesis
    proof (cases ok)
      case False
      then show ?thesis using N e None s p1 by (simp add: NextRec_def)
    next
      case True
      let ?t = "cur (scanner p1)"
      let ?q = "p1\<lparr>b := tl (tline ?t), bcap := tslack ?t, sum' := 0\<rparr>"
      consider (blank) "length (tline ?t) = 0"
        | (nomark) "length (tline ?t) \<noteq> 0" "hd (tline ?t) \<noteq> CHR '':''"
        | (rec) "length (tline ?t) \<noteq> 0" "hd (tline ?t) = CHR '':''"
        by blast
      then show ?thesis
      proof cases
        case blank
        then show ?thesis using N e None s True p1 by (simp add: NextRec_def)
      next
        case nomark
        then show ?thesis
          using N e None s True mark [OF p1 e1 [OF True]] by (auto simp: NextRec_def)
      next
        case rec
        from N e None s True rec
        obtain reclen p2 offset p3 rectyp p4 p5 g where
          "readByteField ?q = Inr (reclen, p2)" "readWordField p2 = Inr (offset, p3)"
          "readByteField p3 = Inr (rectyp, p4)" "checkRecLen rectyp reclen p4 = Inr p5"
          "parseInfo rectyp reclen offset p5 = Inr (g, p')"
          by (auto simp: NextRec_def Let_def split: if_splits sum.splits prod.splits)
        then show ?thesis
          using init [OF p1, where l = "tl (tline ?t)" and c = "tslack ?t"] rb rw cl pi by blast
      qed
    qed
  qed
qed

lemma Parse_preserves:
  assumes "\<And>p r p'. P p \<Longrightarrow> NextRec p = Inr (r, p') \<Longrightarrow> P p'"
  shows "P p \<Longrightarrow> Parse p = Inr (r, p') \<Longrightarrow> P p'"
proof (induction p rule: Parse.induct)
  case (1 p)
  show ?case
  proof (cases "NextRec p")
    case (Inl f)
    then show ?thesis using "1.prems" by (simp add: Parse_fault)
  next
    case (Inr x)
    obtain res p1 where x: "x = (res, p1)" by (cases x)
    have p1: "P p1" using assms [OF "1.prems"(1)] Inr x by simp
    show ?thesis
    proof (cases res)
      case None
      then have "Parse p = Parse p1" using Inr x by (simp add: Parse_again)
      then show ?thesis
        using "1.IH" [of x res p1] Inr x None p1 "1.prems"(2) by simp
    next
      case (Some a)
      then have "Parse p = Inr (a, p1)" using Inr x by (simp add: Parse_return)
      then show ?thesis using p1 "1.prems"(2) by simp
    qed
  qed
qed

lemma reaches_preserves:
  assumes "\<And>p r p'. P p \<Longrightarrow> NextRec p = Inr (r, p') \<Longrightarrow> P p'"
  shows "reaches p q \<Longrightarrow> P p \<Longrightarrow> P q"
proof (induction rule: reaches.induct)
  case (start p)
  then show ?case .
next
  case (call p q r q')
  then show ?case using Parse_preserves [of P q r q'] assms by blast
qed

lemma NextRec_modes_ok:
  assumes "modes_ok p" and "NextRec p = Inr (r, p')"
  shows "modes_ok p'"
proof (rule NextRec_preserves [of modes_ok, OF _ _ _ _ _ _ _ _ assms])
  show "\<And>p r p'. modes_ok p \<Longrightarrow> err p = None \<Longrightarrow> scanLine p = (r, p') \<Longrightarrow> modes_ok p'"
    using scanLine_modes same_modes_ok by blast
  show "\<And>p r p'. modes_ok p \<Longrightarrow> readByteField p = Inr (r, p') \<Longrightarrow> modes_ok p'"
    using readByteField_modes same_modes_ok by blast
  show "\<And>p r p'. modes_ok p \<Longrightarrow> readWordField p = Inr (r, p') \<Longrightarrow> modes_ok p'"
    using readWordField_modes same_modes_ok by blast
  show "\<And>p t n p'. modes_ok p \<Longrightarrow> checkRecLen t n p = Inr p' \<Longrightarrow> modes_ok p'"
    using checkRecLen_modes same_modes_ok by blast
  show "\<And>p t n off r p'. modes_ok p \<Longrightarrow> parseInfo t n off p = Inr (r, p') \<Longrightarrow> modes_ok p'"
    using parseInfo_modes_ok by blast
qed (simp_all add: modes_ok_def)

lemma quiet_refl [simp]: "quiet p p"
  by (simp add: quiet_def)

lemma quiet_trans: "quiet p p1 \<Longrightarrow> quiet p1 p2 \<Longrightarrow> quiet p p2"
  by (auto simp: quiet_def)

lemma isRAE_None [simp]: "\<not> isRAE None"
  by (simp add: isRAE_def)

lemma quiet_count_ok:
  assumes "quiet p p'" and "count_ok N p"
  shows "count_ok N p'"
proof -
  from assms(1) have s: "scanner p' = scanner p" "line p' = line p"
    and e: "err p' = err p \<or> err p = None \<and> \<not> isRAE (err p')"
    by (simp_all add: quiet_def)
  from e show ?thesis
  proof
    assume "err p' = err p"
    then show ?thesis using assms(2) s by (simp add: count_ok_def taken_def)
  next
    assume "err p = None \<and> \<not> isRAE (err p')"
    then show ?thesis using assms(2) s by (simp add: count_ok_def taken_def)
  qed
qed

lemma readFieldInto_quiet:
  assumes "readFieldInto n foff p = Inr (r, p')"
  shows "quiet p p'"
proof (cases "err p")
  case None
  have s: "scanner p' = scanner p" using assms by (rule readFieldInto_scanner)
  have l: "line p' = line p"
    using assms by (auto simp: readFieldInto_def Let_def split: if_splits prod.splits)
  from readFieldInto_Inr [OF None assms] have "\<not> isRAE (err p')"
    by (auto simp: isRAE_def)
  then show ?thesis using s l None by (simp add: quiet_def)
next
  case (Some a)
  then show ?thesis using assms by (simp add: readFieldInto_def)
qed

lemma readWordField_quiet: "readWordField p = Inr (r, p') \<Longrightarrow> quiet p p'"
  by (auto simp: readWordField_def readField_def split: sum.splits prod.splits if_splits
      dest: readFieldInto_quiet)

lemma readByteField_quiet: "readByteField p = Inr (r, p') \<Longrightarrow> quiet p p'"
  by (auto simp: readByteField_def readField_def split: sum.splits prod.splits if_splits
      dest: readFieldInto_quiet)

lemma checkRecLen_quiet: "checkRecLen t n p = Inr p' \<Longrightarrow> quiet p p'"
  by (auto simp: checkRecLen_def quiet_def isRAE_def makeError_def split: if_splits)

lemma endRecord_quiet:
  assumes "endRecord p = Inr p'"
  shows "quiet p p'"
proof -
  from assms obtain s p1 where r: "readFieldInto 1 255 p = Inr (s, p1)"
    by (auto simp: endRecord_def split: sum.splits)
  have q1: "quiet p p1" using r by (rule readFieldInto_quiet)
  have "quiet p1 p'"
    using assms r
    by (auto simp: endRecord_def quiet_def isRAE_def makeError_def split: if_splits)
  with q1 show ?thesis by (rule quiet_trans)
qed

lemma quiet_upd:
  "quiet p p' \<Longrightarrow> scanner (f p') = scanner p' \<Longrightarrow> line (f p') = line p' \<Longrightarrow>
   err (f p') = err p' \<Longrightarrow> quiet p (f p')"
  by (simp add: quiet_def)

lemma parseData_quiet:
  assumes "parseData n off p = Inr p'"
  shows "quiet p p'"
proof -
  from assms obtain s p1 where r: "readField n p = Inr (s, p1)"
    by (auto simp: parseData_def split: sum.splits)
  have q1: "quiet p p1" using r unfolding readField_def by (rule readFieldInto_quiet)
  have "quiet p1 p'"
    using assms r
    by (auto simp: parseData_def Let_def quiet_def split: if_splits)
  with q1 show ?thesis by (rule quiet_trans)
qed

lemma parseInfo_quiet:
  assumes "parseInfo t n off p = Inr (r, p')"
  shows "quiet p p'"
proof (cases "err p \<noteq> None")
  case True
  then show ?thesis using assms by (simp add: parseInfo_def)
next
  case False
  note q = quiet_trans readWordField_quiet endRecord_quiet parseData_quiet quiet_upd
  consider "t = 0" | "t = 1" | "t = 2" | "t = 3" | "t = 4" | "t = 5"
    | "t \<noteq> 0" "t \<noteq> 1" "t \<noteq> 2" "t \<noteq> 3" "t \<noteq> 4" "t \<noteq> 5"
    by blast
  then show ?thesis
  proof cases
    case 1
    with assms False obtain p1 where "parseData n off p = Inr p1" "endRecord p1 = Inr p'"
      by (auto simp: parseInfo_def split: sum.splits)
    then show ?thesis by (blast intro: q)
  next
    case 2
    with assms False have "endRecord (p\<lparr>ended := True\<rparr>) = Inr p'"
      by (auto simp: parseInfo_def split: sum.splits)
    then have "quiet (p\<lparr>ended := True\<rparr>) p'" by (rule endRecord_quiet)
    then show ?thesis by (simp add: quiet_def)
  next
    case 3
    with assms False obtain w p1 where w: "readWordField p = Inr (w, p1)"
      and e: "endRecord (p1\<lparr>sba := push_bit 4 (ucast w), useSBA := True,
                                 lba := 0, useLBA := False\<rparr>) = Inr p'"
      by (auto simp: parseInfo_def split: sum.splits)
    have "quiet p p1" using w by (rule readWordField_quiet)
    moreover have "quiet p1 p'" using endRecord_quiet [OF e] by (simp add: quiet_def)
    ultimately show ?thesis by (rule quiet_trans)
  next
    case 4
    with assms False obtain w1 p1 w2 p2 where w: "readWordField p = Inr (w1, p1)"
      and w2: "readWordField (p1\<lparr>cs := w1\<rparr>) = Inr (w2, p2)"
      and e: "endRecord (p2\<lparr>ip := w2, hasCSIP := True\<rparr>) = Inr p'"
      by (auto simp: parseInfo_def split: sum.splits)
    have "quiet p p1" using w by (rule readWordField_quiet)
    moreover have "quiet p1 p2" using readWordField_quiet [OF w2] by (simp add: quiet_def)
    moreover have "quiet p2 p'" using endRecord_quiet [OF e] by (simp add: quiet_def)
    ultimately show ?thesis by (blast intro: quiet_trans)
  next
    case 5
    with assms False obtain w p1 where w: "readWordField (p\<lparr>sba := 0, useSBA := False\<rparr>) = Inr (w, p1)"
      and e: "endRecord (p1\<lparr>lba := push_bit 16 (ucast w), useLBA := True\<rparr>) = Inr p'"
      by (auto simp: parseInfo_def split: sum.splits)
    have "quiet p p1" using readWordField_quiet [OF w] by (simp add: quiet_def)
    moreover have "quiet p1 p'" using endRecord_quiet [OF e] by (simp add: quiet_def)
    ultimately show ?thesis by (rule quiet_trans)
  next
    case 6
    with assms False obtain w1 p1 w2 p2 where w: "readWordField p = Inr (w1, p1)"
      and w2: "readWordField (p1\<lparr>eip := push_bit 16 (ucast w1)\<rparr>) = Inr (w2, p2)"
      and e: "endRecord (p2\<lparr>eip := eip p2 OR ucast w2, hasEIP := True\<rparr>) = Inr p'"
      by (auto simp: parseInfo_def split: sum.splits)
    have "quiet p p1" using w by (rule readWordField_quiet)
    moreover have "quiet p1 p2" using readWordField_quiet [OF w2] by (simp add: quiet_def)
    moreover have "quiet p2 p'" using endRecord_quiet [OF e] by (simp add: quiet_def)
    ultimately show ?thesis by (blast intro: quiet_trans)
  next
    case 7
    with assms False have "endRecord p = Inr p'"
      by (auto simp: parseInfo_def split: sum.splits)
    then show ?thesis by (rule endRecord_quiet)
  qed
qed

lemma scanLine_count_ok:
  assumes "count_ok N p" and "err p = None" and "scanLine p = (r, p')"
  shows "count_ok N p'"
proof -
  from assms(1,2) have t: "taken N p = line p"
    by (simp add: count_ok_def)
  show ?thesis
  proof (cases "pending (scanner p)")
    case Nil
    then have "scanner p' = scanner p" "line p' = line p" "\<not> isRAE (err p')"
      using assms(3)
      by (auto simp: scanLine_def Scan_def Let_def Scanner_Err_def isRAE_def makeError_def
          split: if_splits)
    then show ?thesis using t by (simp add: count_ok_def taken_def)
  next
    case (Cons a as)
    show ?thesis
    proof (cases "ended p")
      case True
      then have "p' = p\<lparr>scanner := (scanner p)\<lparr>pending := as, cur := a\<rparr>,
                        err := Some (ParseError (line p) ''record after end'')\<rparr>"
        using assms(3) Cons by (auto simp: scanLine_def Scan_def makeError_def)
      then show ?thesis using t Cons by (simp add: count_ok_def taken_def isRAE_def)
    next
      case False
      then have "p' = p\<lparr>scanner := (scanner p)\<lparr>pending := as, cur := a\<rparr>,
                         line := line p + 1\<rparr>"
        using assms(3) Cons by (auto simp: scanLine_def Scan_def)
      then show ?thesis using t Cons assms(2) by (simp add: count_ok_def taken_def)
    qed
  qed
qed

lemma NextRec_count_ok:
  assumes "count_ok N p" and "NextRec p = Inr (r, p')"
  shows "count_ok N p'"
proof (rule NextRec_preserves [of "count_ok N", OF _ _ _ _ _ _ _ _ assms])
  show "\<And>p r p'. count_ok N p \<Longrightarrow> err p = None \<Longrightarrow> scanLine p = (r, p') \<Longrightarrow> count_ok N p'"
    by (rule scanLine_count_ok)
  show "\<And>p w. count_ok N p \<Longrightarrow> count_ok N (p\<lparr>data := w, wrap := None\<rparr>)"
    by (simp add: count_ok_def taken_def)
  show "\<And>p. count_ok N p \<Longrightarrow> err p = None \<Longrightarrow>
          count_ok N (p\<lparr>err := Some (makeError p ''missing record mark'')\<rparr>)"
    by (simp add: count_ok_def taken_def isRAE_def makeError_def)
  show "\<And>p l c. count_ok N p \<Longrightarrow> count_ok N (p\<lparr>b := l, bcap := c, sum' := 0\<rparr>)"
    by (simp add: count_ok_def taken_def)
  show "\<And>p r p'. count_ok N p \<Longrightarrow> readByteField p = Inr (r, p') \<Longrightarrow> count_ok N p'"
    using readByteField_quiet quiet_count_ok by blast
  show "\<And>p r p'. count_ok N p \<Longrightarrow> readWordField p = Inr (r, p') \<Longrightarrow> count_ok N p'"
    using readWordField_quiet quiet_count_ok by blast
  show "\<And>p t n p'. count_ok N p \<Longrightarrow> checkRecLen t n p = Inr p' \<Longrightarrow> count_ok N p'"
    using checkRecLen_quiet quiet_count_ok by blast
  show "\<And>p t n off r p'. count_ok N p \<Longrightarrow> parseInfo t n off p = Inr (r, p') \<Longrightarrow> count_ok N p'"
    using parseInfo_quiet quiet_count_ok by blast
qed

lemma reaches_count_ok:
  assumes "reaches (NewParser toks e) p"
  shows "count_ok (length toks) p"
proof (rule reaches_preserves [of "count_ok (length toks)", OF _ assms])
  show "count_ok (length toks) (NewParser toks e)"
    by (simp add: count_ok_def taken_def new_ready)
qed (rule NextRec_count_ok)

lemma reaches_modes_ok:
  assumes "reaches (NewParser toks e) p"
  shows "modes_ok p"
proof (rule reaches_preserves [of modes_ok, OF _ assms])
  show "modes_ok (NewParser toks e)"
    by (simp add: modes_ok_def new_ready)
qed (rule NextRec_modes_ok)

lemma Parse_end_then_line:
  "Parse (NewParser [tok '':00000001FF'', t] None) =
     Inr (False,
          (finish ((header (NewParser [tok '':00000001FF'', t] None) (tok '':00000001FF'') [t]
                      0 0 0 1)\<lparr>ended := True\<rparr>) 0xFF [])
            \<lparr>scanner := (scanner (NewParser [tok '':00000001FF'', t] None))
                           \<lparr>pending := [], cur := t\<rparr>,
             err := Some (ParseError 1 ''record after end'')\<rparr>)"
proof -
  let ?p = "NewParser [tok '':00000001FF'', t] None"
  have d: "Decode ''00000001FF'' = (0 # 0 # 0 # 1 # 0xFF # [], None)"
    by (simp add: fromHexChar_def)
  define F where "F = finish ((header ?p (tok '':00000001FF'') [t] 0 0 0 1)\<lparr>ended := True\<rparr>) 0xFF []"
  have "NextRec ?p = Inr (None, F)"
    unfolding F_def
    by (rule NextRec_end [OF _ _ _ _ _ d]) (simp_all add: new_ready tok_def)
  then have 1: "Parse ?p = Parse F"
    by (rule Parse_again)
  have 2: "Parse F = Inr (False, F\<lparr>scanner := (scanner F)\<lparr>pending := [], cur := t\<rparr>,
                                  err := Some (ParseError (line F) ''record after end'')\<rparr>)"
    by (rule Parse_after_end) (simp_all add: F_def new_ready)
  have l: "line F = 1" "scanner F = (scanner ?p)\<lparr>pending := [t], cur := tok '':00000001FF''\<rparr>"
    by (simp_all add: F_def new_ready)
  show ?thesis
    using 1 2 l by (simp add: F_def)
qed

lemma calls_end_then_line:
  "calls 1 (NewParser [tok '':00000001FF'', t] None) =
     [Inr (False, Some (ParseError 1 ''record after end''), 0, [])]"
proof -
  let ?p = "NewParser [tok '':00000001FF'', t] None"
  define F where "F = (finish ((header ?p (tok '':00000001FF'') [t] 0 0 0 1)\<lparr>ended := True\<rparr>) 0xFF [])
            \<lparr>scanner := (scanner ?p)\<lparr>pending := [], cur := t\<rparr>,
             err := Some (ParseError 1 ''record after end'')\<rparr>"
  have P: "Parse ?p = Inr (False, F)"
    unfolding F_def by (rule Parse_end_then_line)
  have f: "Err F = Some (ParseError 1 ''record after end'')" "Address (Data F) = 0"
    "deref F (Bytes (Data F)) = []"
    by (simp_all add: F_def Err_def Data_def deref_def nil_def header_def NewParser_def)
  have "calls 1 ?p = calls (Suc 0) ?p" by simp
  also have "\<dots> = [Inr (False, Some (ParseError 1 ''record after end''), 0, [])]"
    by (simp add: P f)
  finally show ?thesis .
qed

lemma Inr_projr: "x = Inr (r, q) \<Longrightarrow> x = Inr (r, snd (projr x))"
  by simp

lemma Parse_at_end:
  assumes "err p = None" and "wrap p = None" and "\<not> ended p"
    and "pending (scanner p) = []" and "final (scanner p) = None"
  shows "Parse p = Inr (False, p\<lparr>err := Some (ParseError (line p) ''missing end record'')\<rparr>)"
  using assms
  by (intro Parse_return)
     (simp add: NextRec_def scanLine_def Scan_def Scanner_Err_def makeError_def)

lemma withData_sel [simp]:
  "err (withData q rl off pl) = None"
  "line (withData q rl off pl) = line q"
  "scanner (withData q rl off pl) = scanner q"
  "ended (withData q rl off pl) = ended q"
  "sum' (withData q rl off pl) = sum' q + sum_list pl"
  "field (withData q rl off pl) = pl @ drop (unat rl) (field q)"
  "useSBA (withData q rl off pl) = useSBA q" "useLBA (withData q rl off pl) = useLBA q"
  "sba (withData q rl off pl) = sba q" "lba (withData q rl off pl) = lba q"
  "Address (data (withData q rl off pl)) = address q off"
  by (simp_all add: withData_def)

lemma withData_whole:
  assumes "useLBA q \<or> unat off + unat rl \<le> 65536"
  shows "wrap (withData q rl off pl) = wrap q"
    and "Bytes (data (withData q rl off pl)) = (0, unat rl)"
  using assms by (auto simp: withData_def)

lemma deref_withData:
  "length pl = unat rl \<Longrightarrow> n \<le> unat rl \<Longrightarrow> deref (withData q rl off pl) (0, n) = take n pl"
  by (simp add: deref_def)

lemma Parse_True_err:
  assumes "Parse p = Inr (True, p')"
  shows "err p' = None"
  using assms
proof (induction p rule: Parse.induct)
  case (1 p)
  show ?case
  proof (cases "NextRec p")
    case (Inl f)
    then show ?thesis using "1.prems" by (simp add: Parse_fault)
  next
    case (Inr x)
    obtain res p1 where x: "x = (res, p1)" by (cases x)
    show ?thesis
    proof (cases res)
      case None
      then have "Parse p = Parse p1" using Inr x by (simp add: Parse_again)
      then show ?thesis
        using "1.IH" [of x res p1] Inr x None "1.prems" by simp
    next
      case (Some a)
      then have "Parse p = Inr (a, p1)" using Inr x by (simp add: Parse_return)
      then have a: "a" "p1 = p'" using "1.prems" by simp_all
      have "NextRec p = Inr (Some True, p')" using Inr x Some a by simp
      then show ?thesis
        by (auto simp: NextRec_def Let_def scanLine_def
            split: if_splits option.splits sum.splits prod.splits bool.splits)
    qed
  qed
qed

section \<open>The claims\<close>

text \<open>
  C9. Errors are sticky: once an error has been recorded, every further call of
  \<open>Parse\<close> returns false at once and leaves the parser as it is, so that no input is
  read and \<open>Err\<close> keeps returning the error that was recorded first.
\<close>

theorem Parse_sticky:
  "Err p = Some e \<Longrightarrow> pulls n p = Inr (replicate n False, p)"
  by (induction n) (simp_all add: Err_def Parse_err)

theorem Parse_sticky_witness:
  "Parse (NewParser [] None)
     = Inr (False, (NewParser [] None)\<lparr>err := Some (ParseError 0 ''missing end record'')\<rparr>)
   \<and> pulls 3 ((NewParser [] None)\<lparr>err := Some (ParseError 0 ''missing end record'')\<rparr>)
     = Inr ([False, False, False],
            (NewParser [] None)\<lparr>err := Some (ParseError 0 ''missing end record'')\<rparr>)
   \<and> Err ((NewParser [] None)\<lparr>err := Some (ParseError 0 ''missing end record'')\<rparr>)
     = Some (ParseError 0 ''missing end record'')"
proof -
  let ?p = "(NewParser [] None)\<lparr>err := Some (ParseError 0 ''missing end record'')\<rparr>"
  have e: "Err ?p = Some (ParseError 0 ''missing end record'')"
    by (simp add: Err_def)
  have "Parse (NewParser [] None) = Inr (False, ?p)"
    by (rule Parse_return)
       (simp add: NextRec_def NewParser_def NewScanner_def scanLine_def Scan_def
         Scanner_Err_def makeError_def)
  moreover have "replicate 3 False = [False, False, False]"
    by (simp add: numeral_3_eq_3)
  ultimately show ?thesis
    using e Parse_sticky [OF e, of 3] by simp
qed

text \<open>
  C1. With no linear base active, a data record whose last byte lies beyond offset 0xFFFF is
  split, and the second part is handed out by the next call of \<open>Parse\<close> before another
  line is read. The claim puts the split at the 16-bit boundary: the first
  \<open>0x10000 - offset\<close> bytes stay in the current record. \<open>parseInfo\<close> however cuts the
  payload at index \<open>extra\<close>, the number of bytes beyond the boundary. For the record
  \<open>:03FFFF00AABBCCCE\<close> (offset 0xFFFF, payload AA BB CC) the boundary is after one byte,
  but the first call returns the two bytes AA BB at address 0xFFFF and the second call
  returns the single byte CC at address 0x0001.
\<close>

theorem split_at_extra:
  "calls 2 (NewParser [tok '':03FFFF00AABBCCCE''] None) =
     [Inr (True, None, 0xFFFF, [0xAA, 0xBB]), Inr (True, None, 0x0001, [0xCC])]"
proof -
  let ?p = "NewParser [tok '':03FFFF00AABBCCCE''] None"
  let ?t = "tok '':03FFFF00AABBCCCE''"
  have d: "Decode ''03FFFF00AABBCCCE'' = (3 # 0xFF # 0xFF # 0 # [0xAA, 0xBB, 0xCC] @ 0xCE # [], None)"
    by (simp add: fromHexChar_def)
  define F where "F = finish (withData (header ?p ?t [] 3 0xFF 0xFF 0) 3 (word16 0xFF 0xFF) [0xAA, 0xBB, 0xCC]) 0xCE []"
  have e: "err F = None"
    by (simp add: F_def withData_def)
  have "NextRec ?p = Inr (Some (err F = None), F)"
    unfolding F_def
    by (rule NextRec_data [OF _ _ _ _ _ d]) (simp_all add: new_ready tok_def)
  then have 1: "Parse ?p = Inr (True, F)"
    using e by (intro Parse_return) simp
  have w: "wrap F = Some \<lparr>Address = 1, Bytes = (2, 1)\<rparr>"
    by (simp add: F_def withData_def new_ready)
  have 2: "Parse F = Inr (True, F\<lparr>data := \<lparr>Address = 1, Bytes = (2, 1)\<rparr>, wrap := None\<rparr>)"
    using e w by (rule Parse_wrap)
  have a: "Address (data F) = 0xFFFF" "Bytes (data F) = (0, 2)"
    by (simp_all add: F_def withData_def address_def new_ready)
  have fl: "take 3 (field F) = [0xAA, 0xBB, 0xCC]"
    by (simp add: F_def finish_def withData_def)
  have "deref F (0, 2) = take 2 (take 3 (field F))"
    "deref F (2, 1) = take 1 (drop 2 (take 3 (field F)))"
    by (simp_all add: deref_def drop_take)
  then have b: "deref F (0, 2) = [0xAA, 0xBB]" "deref F (2, 1) = [0xCC]"
    unfolding fl by simp_all
  have df: "deref (F\<lparr>data := \<lparr>Address = 1, Bytes = (2, 1)\<rparr>, wrap := None\<rparr>) (2, 1)
              = deref F (2, 1)"
    by (simp add: deref_def)
  have "calls 2 ?p = calls (Suc (Suc 0)) ?p"
    by (simp add: numeral_2_eq_2)
  also have "\<dots> = [Inr (True, None, 0xFFFF, [0xAA, 0xBB]), Inr (True, None, 0x0001, [0xCC])]"
    using 1 2 e a b df by (simp add: Err_def Data_def)
  finally show ?thesis .
qed

text \<open>
  C2. The claim has a well-formed line with a record type above 5 treated as a record
  without effect, after which reading goes on. \<open>checkRecLen\<close> indexes the six-entry table
  \<open>reclens\<close> with the record type before \<open>parseInfo\<close> can ignore it, so such a line
  stops the program with an index out of range: for \<open>:00000006FA\<close> (type 6, checksum
  right) \<open>Parse\<close> does not return.
\<close>

theorem unknown_type_panics:
  "Parse (NewParser [tok '':00000006FA''] None) = Inl IndexRange"
proof -
  have d: "Decode ''00000006FA'' = (0 # 0 # 0 # 6 # [0xFA], None)"
    by (simp add: fromHexChar_def)
  have "NextRec (NewParser [tok '':00000006FA''] None) = Inl IndexRange"
    by (rule NextRec_unknown_type [where t = "tok '':00000006FA''" and ts = "[]", OF _ _ _ _ _ d])
       (simp_all add: new_ready tok_def)
  then show ?thesis by (rule Parse_fault)
qed

text \<open>
  C3. As the claim has it, a blank line after the end-of-file record is skipped and only
  a non-empty line raises \<open>record after end\<close>. In \<open>scanLine\<close> the test of \<open>ended\<close> comes
  before \<open>Parse\<close> looks at the length of the line, so the blank line after
  \<open>:00000001FF\<close> is an error as well.
\<close>

theorem blank_after_end_counterexample:
  "calls 1 (NewParser [tok '':00000001FF'', tok ''''] None) =
     [Inr (False, Some (ParseError 1 ''record after end''), 0, [])]"
proof -
  let ?p = "NewParser [tok '':00000001FF'', tok ''''] None"
  have d: "Decode ''00000001FF'' = (0 # 0 # 0 # 1 # 0xFF # [], None)"
    by (simp add: fromHexChar_def)
  define F where "F = finish ((header ?p (tok '':00000001FF'') [tok ''''] 0 0 0 1)\<lparr>ended := True\<rparr>) 0xFF []"
  have "NextRec ?p = Inr (None, F)"
    unfolding F_def
    by (rule NextRec_end [OF _ _ _ _ _ d]) (simp_all add: new_ready tok_def)
  then have 1: "Parse ?p = Parse F"
    by (rule Parse_again)
  have 2: "Parse F = Inr (False, F\<lparr>scanner := (scanner F)\<lparr>pending := [], cur := tok ''''\<rparr>,
                                  err := Some (ParseError (line F) ''record after end'')\<rparr>)"
    by (rule Parse_after_end) (simp_all add: F_def new_ready)
  have l: "line F = 1" "data F = \<lparr>Address = 0, Bytes = nil\<rparr>"
    by (simp_all add: F_def new_ready header_def NewParser_def)
  have "calls 1 ?p = calls (Suc 0) ?p" by simp
  also have "\<dots> = [Inr (False, Some (ParseError 1 ''record after end''), 0, [])]"
    using 1 2 l by (simp add: Err_def Data_def deref_def nil_def)
  finally show ?thesis .
qed

text \<open>
  C3, as amended. Once the end-of-file record has been seen, every further line that the
  scanner returns, blank or not, makes \<open>Parse\<close> return false with the error
  \<open>record after end\<close>; the line is taken from the scanner and nothing else changes.
\<close>

theorem line_after_end:
  assumes "Err p = None" and "wrap p = None" and "ended p"
    and "pending (scanner p) = t # ts"
  shows "Parse p = Inr (False, p\<lparr>scanner := (scanner p)\<lparr>pending := ts, cur := t\<rparr>,
                                 err := Some (ParseError (line p) ''record after end'')\<rparr>)"
  using assms Parse_after_end [of p t ts] by (simp add: Err_def)

theorem line_after_end_witness:
  "tline (tok '''') = [] \<and>
   Parse ((NewParser [tok ''''] None)\<lparr>ended := True\<rparr>) =
     Inr (False, (NewParser [tok ''''] None)
                   \<lparr>ended := True,
                    scanner := (scanner (NewParser [tok ''''] None))
                                 \<lparr>pending := [], cur := tok ''''\<rparr>,
                    err := Some (ParseError 0 ''record after end'')\<rparr>)"
  using line_after_end [of "(NewParser [tok ''''] None)\<lparr>ended := True\<rparr>" "tok ''''" "[]"]
  by (simp add: new_ready Err_def tok_def)

text \<open>
  C5. The claim gives a hex field with an odd number of digits or with a character that
  is no hex digit an error of its own, apart from \<open>record too short\<close>. \<open>readFieldInto\<close>
  does store the error of \<open>hex.Decode\<close>, but it tests \<open>byte(nd) < n\<close> first, and a
  failed decoding always returns fewer than \<open>n\<close> bytes: both the line \<open>:00000001FG\<close>
  (a character that is no hex digit in the checksum) and the line \<open>:00000001F\<close> (half a
  checksum byte) end with \<open>record too short\<close>.
\<close>

theorem malformed_hex_is_too_short:
  "calls 1 (NewParser [tok '':00000001FG''] None) =
     [Inr (False, Some (ParseError 1 ''record too short''), 0, [])] \<and>
   calls 1 (NewParser [tok '':00000001F''] None) =
     [Inr (False, Some (ParseError 1 ''record too short''), 0, [])]"
proof -
  have A: "calls 1 (NewParser [tok l] None) =
             [Inr (False, Some (ParseError 1 ''record too short''), 0, [])]"
    if l: "l = CHR '':'' # ''00000001'' @ r" and r: "2 \<le> length r + 2"
      and d: "Decode (take 2 (r @ [CHR 0x0A, CHR 0x00])) = ([], Some e)" for l r e
  proof -
    let ?p = "NewParser [tok l] None"
    define F where "F = (header ?p (tok l) [] 0 0 0 1)
                          \<lparr>ended := True, err := Some (ParseError (line ?p + 1) ''record too short'')\<rparr>"
    have "NextRec ?p = Inr (None, F)"
      unfolding F_def
      by (rule NextRec_end_short [where l = "''00000001'' @ r" and e = e])
         (use l r d in \<open>simp_all add: new_ready tok_def fromHexChar_def\<close>)
    then have 1: "Parse ?p = Parse F"
      by (rule Parse_again)
    have 2: "Parse F = Inr (False, F)"
      by (rule Parse_err) (simp add: F_def)
    have f: "err F = Some (ParseError 1 ''record too short'')" "data F = \<lparr>Address = 0, Bytes = nil\<rparr>"
      by (simp_all add: F_def new_ready header_def NewParser_def)
    have "calls 1 ?p = calls (Suc 0) ?p" by simp
    also have "\<dots> = [Inr (False, Some (ParseError 1 ''record too short''), 0, [])]"
      using 1 2 f by (simp add: Err_def Data_def deref_def nil_def)
    finally show ?thesis .
  qed
  have "calls 1 (NewParser [tok '':00000001FG''] None) =
          [Inr (False, Some (ParseError 1 ''record too short''), 0, [])]"
    by (rule A [where r = "''FG''"]) (simp_all add: fromHexChar_def)
  moreover have "calls 1 (NewParser [tok '':00000001F''] None) =
          [Inr (False, Some (ParseError 1 ''record too short''), 0, [])]"
    by (rule A [where r = "''F''"]) (simp_all add: fromHexChar_def)
  ultimately show ?thesis by simp
qed

text \<open>
  C4. By the claim the error \<open>record after end\<close> carries the 1-based number of the line
  that comes after the end-of-file record. \<open>scanLine\<close> makes the error before it counts
  the line: for an end-of-file record on line 1 and an extended segment address record on
  line 2 (the input of \<open>TestEnd\<close>) the error names line 1, not line 2.
\<close>

theorem record_after_end_counterexample:
  "calls 1 (NewParser [tok '':00000001FF'', tok '':020000021200EA''] None) =
     [Inr (False, Some (ParseError 1 ''record after end''), 0, [])]"
  by (rule calls_end_then_line)

text \<open>
  C4, as amended. When \<open>record after end\<close> is raised, the error carries the number of lines
  counted before the offending line: it is the value of the line counter, and the number of
  lines taken from the scanner, the offending line included, is one more.
\<close>

theorem record_after_end_line:
  assumes "reaches (NewParser toks e) p"
    and "Err p = Some (ParseError n ''record after end'')"
  shows "n = line p \<and> int (length toks) - int (length (pending (scanner p))) = n + 1"
proof -
  have "count_ok (length toks) p"
    using assms(1) by (rule reaches_count_ok)
  moreover have "isRAE (err p)"
    using assms(2) by (auto simp: isRAE_def Err_def)
  ultimately show ?thesis
    using assms(2) by (simp add: count_ok_def taken_def Err_def)
qed

theorem record_after_end_line_witness:
  "reaches (NewParser [tok '':00000001FF'', tok '':020000021200EA''] None)
     (snd (projr (Parse (NewParser [tok '':00000001FF'', tok '':020000021200EA''] None)))) \<and>
   Err (snd (projr (Parse (NewParser [tok '':00000001FF'', tok '':020000021200EA''] None))))
     = Some (ParseError 1 ''record after end'') \<and>
   line (snd (projr (Parse (NewParser [tok '':00000001FF'', tok '':020000021200EA''] None)))) = 1 \<and>
   int (length [tok '':00000001FF'', tok '':020000021200EA''])
     - int (length (pending (scanner (snd (projr
         (Parse (NewParser [tok '':00000001FF'', tok '':020000021200EA''] None))))))) = 1 + 1"
proof -
  let ?start = "NewParser [tok '':00000001FF'', tok '':020000021200EA''] None"
  let ?fin = "snd (projr (Parse ?start))"
  note P = Parse_end_then_line [of "tok '':020000021200EA''"]
  have "Parse ?start = Inr (False, ?fin)"
    by (rule Inr_projr [OF P])
  then have r: "reaches ?start ?fin"
    using reaches.start [of ?start] by (rule reaches.call [rotated])
  have e: "Err ?fin = Some (ParseError 1 ''record after end'')"
    unfolding P by (simp add: Err_def)
  from record_after_end_line [OF r e]
  have c: "line ?fin = 1"
    "int (length [tok '':00000001FF'', tok '':020000021200EA''])
       - int (length (pending (scanner ?fin))) = 1 + 1"
    by simp_all
  show ?thesis
    by (intro conjI) (fact r e c)+
qed

text \<open>
  C8. In every parser reached from a new one by calls of \<open>Parse\<close>, segment-base mode and
  linear-base mode are not both active. A type-2 record makes segment base active and
  clears the linear base; a type-4 record makes linear base active and clears the segment
  base (in \<open>parseInfo\<close>, whatever the payload and the checksum are).
\<close>

theorem base_modes_exclusive:
  "(reaches (NewParser toks e) p \<longrightarrow> \<not> (useSBA p \<and> useLBA p)) \<and>
   (err q = None \<and> parseInfo 2 rl off q = Inr (g, q') \<longrightarrow>
      useSBA q' \<and> \<not> useLBA q' \<and> lba q' = 0) \<and>
   (err q = None \<and> parseInfo 4 rl off q = Inr (g, q') \<longrightarrow>
      useLBA q' \<and> \<not> useSBA q' \<and> sba q' = 0)"
proof -
  have A: "\<not> (useSBA p \<and> useLBA p)" if "reaches (NewParser toks e) p"
  proof -
    from that have "modes_ok p" by (rule reaches_modes_ok)
    then show ?thesis by (simp add: modes_ok_def)
  qed
  have B: "useSBA q' \<and> \<not> useLBA q' \<and> lba q' = 0"
    if a: "err q = None \<and> parseInfo 2 rl off q = Inr (g, q')"
  proof -
    from a obtain w p1 where w: "readWordField q = Inr (w, p1)"
      and e: "endRecord (p1\<lparr>sba := push_bit 4 (ucast w), useSBA := True,
                                 lba := 0, useLBA := False\<rparr>) = Inr q'"
      by (auto simp: parseInfo_def split: sum.splits)
    from endRecord_modes [OF e] show ?thesis
      by (simp add: same_modes_def)
  qed
  have C: "useLBA q' \<and> \<not> useSBA q' \<and> sba q' = 0"
    if a: "err q = None \<and> parseInfo 4 rl off q = Inr (g, q')"
  proof -
    from a obtain w p1 where w: "readWordField (q\<lparr>sba := 0, useSBA := False\<rparr>) = Inr (w, p1)"
      and e: "endRecord (p1\<lparr>lba := push_bit 16 (ucast w), useLBA := True\<rparr>) = Inr q'"
      by (auto simp: parseInfo_def split: sum.splits)
    from readWordField_modes [OF w] endRecord_modes [OF e] show ?thesis
      by (simp add: same_modes_def)
  qed
  from A B C show ?thesis by blast
qed

theorem base_modes_exclusive_witness:
  "reaches (NewParser [tok '':02000004FFFFFC''] None)
     (snd (projr (Parse (NewParser [tok '':02000004FFFFFC''] None)))) \<and>
   useLBA (snd (projr (Parse (NewParser [tok '':02000004FFFFFC''] None)))) \<and>
   \<not> useSBA (snd (projr (Parse (NewParser [tok '':02000004FFFFFC''] None)))) \<and>
   useSBA (snd (projr (parseInfo 2 2 0 ((NewParser [] None)\<lparr>b := ''1200EA''\<rparr>)))) \<and>
   \<not> useLBA (snd (projr (parseInfo 2 2 0 ((NewParser [] None)\<lparr>b := ''1200EA''\<rparr>)))) \<and>
   useLBA (snd (projr (parseInfo 4 2 0 ((NewParser [] None)\<lparr>b := ''FFFFFC''\<rparr>)))) \<and>
   \<not> useSBA (snd (projr (parseInfo 4 2 0 ((NewParser [] None)\<lparr>b := ''FFFFFC''\<rparr>))))"
proof -
  let ?start = "NewParser [tok '':02000004FFFFFC''] None"
  let ?fin = "snd (projr (Parse ?start))"
  let ?t = "tok '':02000004FFFFFC''"
  let ?Q = "(NewParser [] None)\<lparr>b := ''1200EA''\<rparr>"
  let ?R = "(NewParser [] None)\<lparr>b := ''FFFFFC''\<rparr>"
  have d: "Decode ''02000004FFFFFC'' = (2 # 0 # 0 # 4 # 0xFF # 0xFF # 0xFC # [], None)"
    by (simp add: fromHexChar_def)
  define F where "F = finish ((header ?start ?t [] 2 0 0 4)
                         \<lparr>sba := 0, useSBA := False,
                          field := 0xFF # 0xFF # drop 2 (field (header ?start ?t [] 2 0 0 4)),
                          err := None, b := drop 4 (b (header ?start ?t [] 2 0 0 4)),
                          sum' := sum' (header ?start ?t [] 2 0 0 4) + (0xFF + 0xFF),
                          lba := push_bit 16 (ucast (word16 0xFF 0xFF)), useLBA := True\<rparr>) 0xFC []"
  have "NextRec ?start = Inr (None, F)"
    unfolding F_def
    by (rule NextRec_lba [OF _ _ _ _ _ d]) (simp_all add: new_ready tok_def)
  then have 1: "Parse ?start = Parse F"
    by (rule Parse_again)
  have 2: "Parse F = Inr (False, F\<lparr>err := Some (ParseError (line F) ''missing end record'')\<rparr>)"
    by (rule Parse_at_end) (simp_all add: F_def new_ready)
  have P: "Parse ?start = Inr (False, F\<lparr>err := Some (ParseError (line F) ''missing end record'')\<rparr>)"
    using 1 2 by simp
  have "Parse ?start = Inr (False, ?fin)"
    by (rule Inr_projr [OF P])
  then have r: "reaches ?start ?fin"
    using reaches.start [of ?start] by (rule reaches.call [rotated])
  have u: "useLBA ?fin"
    unfolding P by (simp add: F_def)
  have dq: "Decode (b ?Q) = (0x12 # 0x00 # 0xEA # [], None)"
    "Decode (b ?R) = (0xFF # 0xFF # 0xFC # [], None)"
    by (simp_all add: fromHexChar_def)
  have eq: "err ?Q = None" "err ?R = None"
    by (simp_all add: new_ready)
  have lq: "length (field ?Q) = 256" "length (field ?R) = 256"
    by (simp_all add: new_ready)
  note iq = parseInfo_sba [OF eq(1) dq(1) lq(1), of 2 0]
  note ir = parseInfo_lba [OF eq(2) dq(2) lq(2), of 2 0]
  have jq: "parseInfo 2 2 0 ?Q = Inr (False, snd (projr (parseInfo 2 2 0 ?Q)))"
    by (rule Inr_projr [OF iq])
  have jr: "parseInfo 4 2 0 ?R = Inr (False, snd (projr (parseInfo 4 2 0 ?R)))"
    by (rule Inr_projr [OF ir])
  from base_modes_exclusive [where toks = "[?t]" and e = None and p = ?fin and q = ?Q
      and rl = 2 and off = 0 and g = False and q' = "snd (projr (parseInfo 2 2 0 ?Q))"]
    r u eq jq
  have a: "\<not> useSBA ?fin" "useSBA (snd (projr (parseInfo 2 2 0 ?Q)))"
    "\<not> useLBA (snd (projr (parseInfo 2 2 0 ?Q)))"
    by blast+
  from base_modes_exclusive [where q = ?R
      and rl = 2 and off = 0 and g = False and q' = "snd (projr (parseInfo 4 2 0 ?R))"]
    eq jr
  have c: "useLBA (snd (projr (parseInfo 4 2 0 ?R)))"
    "\<not> useSBA (snd (projr (parseInfo 4 2 0 ?R)))"
    by blast+
  show ?thesis
    by (intro conjI) (fact r u a c)+
qed

end
